theory Spec2Isabelle
  imports Complex_Main
begin

section \<open>The M/M/1/K simulation of mm1k.py\<close>

text \<open>
  The program runs two kinds of generator processes, \<open>source\<close> and \<open>packet\<close>, on the
  event loop of the simpy library. The embedding keeps the event loop explicit: the
  environment is a record holding the clock, the event heap and the event counter, every
  generator is cut at its \<open>yield\<close> statements, and the event a process waits for carries
  the local variables the process needs when it is resumed.

  Times are Python floats in the source and exact reals here: rounding is not modelled.
  The random module is a parameter: \<open>mt seed n\<close> stands for the value
  \<open>-log(1.0 - random())\<close> of the \<open>n\<close>-th call of \<open>random()\<close> after
  \<open>random.seed(seed)\<close>, so that \<open>expovariate lambd\<close> is that value divided by \<open>lambd\<close>.
\<close>

subsection \<open>Errors\<close>

datatype error = ZeroDivisionError | ValueError | IndexError

subsection \<open>The random module\<close>

record generator =
  stream :: "nat \<Rightarrow> real"
  pos :: nat

text \<open>\<open>random.expovariate(lambd)\<close> is \<open>-log(1.0 - random()) / lambd\<close>; the float division
  raises on a zero divisor.\<close>

definition expovariate :: "generator \<Rightarrow> real \<Rightarrow> error + (real \<times> generator)" where
  "expovariate g lambd =
     (if lambd = 0 then Inl ZeroDivisionError
      else Inr (stream g (pos g) / lambd, g\<lparr>pos := Suc (pos g)\<rparr>))"

subsection \<open>Events and the environment\<close>

text \<open>A request of the server by a packet: the packet's name (the index \<open>i\<close> of
  \<open>'Packet-%d' % i\<close>), its \<open>arrv_time\<close> and its \<open>service_time\<close>.\<close>

type_synonym request = "nat \<times> real \<times> real"

datatype event =
    InitSource
  | SourceTimeout nat
  | InitPacket nat real
  | Request request
  | ServiceTimeout request
  | Release
  | ProcessEnd
  | ProcessFailed error

text \<open>The lines the source prints under \<open>trace\<close>, all commented out there. The model
  keeps them as a log that no branch reads: name, \<open>env.now\<close> and the printed numbers.\<close>

datatype log_entry =
    LogArrived nat real nat
  | LogLeft nat real nat
  | LogWaited nat real real
  | LogServed nat real real nat

type_synonym entry = "real \<times> nat \<times> nat \<times> event"

record config =
  mean_ia_time :: real
  mean_srv_time :: real
  system_capacity :: int
  number :: int
  trace :: bool

record state =
  now :: real
  queue :: "entry list"
  eid :: nat
  users :: "request list"
  put_queue :: "request list"
  wait_times :: "real list"
  waiting :: "nat list"
  loss :: "nat list"
  gen :: generator
  trace_log :: "log_entry list"

definition URGENT :: nat where "URGENT = 0"

definition NORMAL :: nat where "NORMAL = 1"

text \<open>simpy keeps \<open>(time, priority, eid, event)\<close> tuples in a binary heap and pops the
  least one. The event counter makes the first three components of all tuples differ,
  so the heap is modelled by the list of its tuples in increasing order.\<close>

fun entry_less :: "entry \<Rightarrow> entry \<Rightarrow> bool" where
  "entry_less (t1, p1, i1, e1) (t2, p2, i2, e2) =
     (t1 < t2 \<or> (t1 = t2 \<and> (p1 < p2 \<or> (p1 = p2 \<and> i1 < i2))))"

fun heappush :: "entry \<Rightarrow> entry list \<Rightarrow> entry list" where
  "heappush x [] = [x]"
| "heappush x (y # ys) = (if entry_less x y then x # y # ys else y # heappush x ys)"

definition schedule :: "event \<Rightarrow> nat \<Rightarrow> real \<Rightarrow> state \<Rightarrow> state" where
  "schedule ev priority delay s =
     s\<lparr>queue := heappush (now s + delay, priority, eid s, ev) (queue s),
       eid := Suc (eid s)\<rparr>"

text \<open>A generator that returns makes simpy schedule its process event; one that raises
  makes simpy schedule the process event as failed, and the exception is raised out of
  \<open>env.run()\<close> when that event is popped.\<close>

definition finish :: "state \<Rightarrow> state" where
  "finish s = schedule ProcessEnd NORMAL 0 s"

definition fail :: "error \<Rightarrow> state \<Rightarrow> state" where
  "fail e s = schedule (ProcessFailed e) NORMAL 0 s"

subsection \<open>The server\<close>

text \<open>\<open>Resource._trigger_put\<close> with capacity 1: the head of the put queue gets the server
  if no request holds it, and its request event is scheduled. \<open>_do_put\<close> returns
  \<open>None\<close>, so the loop of \<open>_trigger_put\<close> stops after the head.\<close>

definition trigger_put :: "state \<Rightarrow> state" where
  "trigger_put s =
     (case put_queue s of
        [] \<Rightarrow> s
      | r # rs \<Rightarrow>
          if length (users s) < 1
          then schedule (Request r) NORMAL 0 (s\<lparr>users := users s @ [r], put_queue := rs\<rparr>)
          else s)"

definition request :: "request \<Rightarrow> state \<Rightarrow> state" where
  "request r s = trigger_put (s\<lparr>put_queue := put_queue s @ [r]\<rparr>)"

text \<open>\<open>Resource.release\<close>: the request leaves \<open>users\<close> at once and a release event is
  scheduled, whose callback is \<open>_trigger_put\<close>.\<close>

definition release :: "request \<Rightarrow> state \<Rightarrow> state" where
  "release r s = schedule Release NORMAL 0 (s\<lparr>users := remove1 r (users s)\<rparr>)"

subsection \<open>The processes\<close>

text \<open>One iteration of the loop of \<open>source\<close>, from the head of the loop to its \<open>yield\<close>.\<close>

definition source :: "config \<Rightarrow> nat \<Rightarrow> state \<Rightarrow> state" where
  "source cfg i s =
     (if int i < number cfg then
        (if mean_ia_time cfg = 0 then fail ZeroDivisionError s
         else case expovariate (gen s) (1 / mean_ia_time cfg) of
           Inl e \<Rightarrow> fail e s
         | Inr (ia_time, g1) \<Rightarrow>
             (if mean_srv_time cfg = 0 then fail ZeroDivisionError (s\<lparr>gen := g1\<rparr>)
              else case expovariate g1 (1 / mean_srv_time cfg) of
                Inl e \<Rightarrow> fail e (s\<lparr>gen := g1\<rparr>)
              | Inr (srv_time, g2) \<Rightarrow>
                  (let s' = schedule (InitPacket i srv_time) URGENT 0 (s\<lparr>gen := g2\<rparr>)
                   in if ia_time < 0 then fail ValueError s'
                      else schedule (SourceTimeout i) NORMAL ia_time s')))
      else finish s)"

text \<open>\<open>packet\<close> from its first line to \<open>yield request\<close> (or to its end).\<close>

definition packet_arrive :: "config \<Rightarrow> nat \<Rightarrow> real \<Rightarrow> state \<Rightarrow> state" where
  "packet_arrive cfg name service_time s =
     (let arrv_time = now s;
          s1 = s\<lparr>waiting := waiting s @ [1]\<rparr>
      in if trace cfg then
           (let s2 = s1\<lparr>trace_log := trace_log s1 @
                         [LogArrived name arrv_time (length (waiting s1))]\<rparr>
            in if int (length (waiting s2)) > system_capacity cfg then
                 (let s3 = s2\<lparr>waiting := butlast (waiting s2)\<rparr>;
                      s4 = s3\<lparr>loss := loss s3 @ [1]\<rparr>
                  in finish (s4\<lparr>trace_log := trace_log s4 @
                               [LogLeft name arrv_time (length (waiting s4))]\<rparr>))
               else request (name, arrv_time, service_time) s2)
         else finish s1)"

text \<open>\<open>packet\<close> from the grant of the server to \<open>yield env.timeout(service_time)\<close>. A
  negative delay makes \<open>env.timeout\<close> raise inside the \<open>with\<close> block, which releases
  the server before the process fails.\<close>

definition packet_granted :: "config \<Rightarrow> request \<Rightarrow> state \<Rightarrow> state" where
  "packet_granted cfg r s =
     (case r of (name, arrv_time, service_time) \<Rightarrow>
        (let wait_time = now s - arrv_time;
             s1 = s\<lparr>wait_times := wait_times s @ [wait_time]\<rparr>;
             s2 = s1\<lparr>trace_log := trace_log s1 @ [LogWaited name (now s1) wait_time]\<rparr>
         in if service_time < 0 then fail ValueError (release r s2)
            else schedule (ServiceTimeout r) NORMAL service_time s2))"

text \<open>\<open>packet\<close> after its service: \<open>waiting.pop()\<close> under \<open>trace\<close>, which raises on an
  empty list, then the end of the \<open>with\<close> block.\<close>

definition packet_depart :: "config \<Rightarrow> request \<Rightarrow> state \<Rightarrow> state" where
  "packet_depart cfg r s =
     (case r of (name, arrv_time, service_time) \<Rightarrow>
        (if trace cfg then
           (if waiting s = [] then fail IndexError (release r s)
            else
              (let s1 = s\<lparr>waiting := butlast (waiting s)\<rparr>;
                   s2 = s1\<lparr>trace_log := trace_log s1 @
                          [LogServed name (now s1) service_time (length (waiting s1))]\<rparr>
               in finish (release r s2)))
         else finish (release r s)))"

subsection \<open>The event loop\<close>

text \<open>The callbacks of an event, run when \<open>Environment.step\<close> has popped it.\<close>

fun dispatch :: "config \<Rightarrow> event \<Rightarrow> state \<Rightarrow> state" where
  "dispatch cfg InitSource s = source cfg 0 s"
| "dispatch cfg (SourceTimeout i) s = source cfg (Suc i) s"
| "dispatch cfg (InitPacket name service_time) s = packet_arrive cfg name service_time s"
| "dispatch cfg (Request r) s = packet_granted cfg r s"
| "dispatch cfg (ServiceTimeout r) s = packet_depart cfg r s"
| "dispatch cfg Release s = trigger_put s"
| "dispatch cfg ProcessEnd s = s"
| "dispatch cfg (ProcessFailed e) s = s"

text \<open>\<open>Environment.step\<close>: pop the least entry, set the clock, run the callbacks, and
  raise the exception of a failed process.\<close>

definition step :: "config \<Rightarrow> state \<Rightarrow> error + state" where
  "step cfg s =
     (case queue s of
        [] \<Rightarrow> Inr s
      | (t, p, i, ev) # q \<Rightarrow>
          (case ev of
             ProcessFailed e \<Rightarrow> Inl e
           | _ \<Rightarrow> Inr (dispatch cfg ev (s\<lparr>now := t, queue := q\<rparr>))))"

text \<open>A bound on the events that an event can still cause, for the termination of
  \<open>env.run()\<close>.\<close>

fun weight :: "config \<Rightarrow> event \<Rightarrow> nat" where
  "weight cfg InitSource = 6 * nat (number cfg) + 2"
| "weight cfg (SourceTimeout i) = 6 * (nat (number cfg) - Suc i) + 2"
| "weight cfg (InitPacket name service_time) = 5"
| "weight cfg (Request r) = 4"
| "weight cfg (ServiceTimeout r) = 3"
| "weight cfg Release = 1"
| "weight cfg ProcessEnd = 1"
| "weight cfg (ProcessFailed e) = 1"

definition ev_of :: "entry \<Rightarrow> event" where
  "ev_of x = snd (snd (snd x))"

definition total :: "(event \<Rightarrow> nat) \<Rightarrow> entry list \<Rightarrow> nat" where
  "total f q = sum_list (map (\<lambda>x. f (ev_of x)) q)"

definition potential :: "config \<Rightarrow> state \<Rightarrow> nat" where
  "potential cfg s = total (weight cfg) (queue s) + 4 * length (put_queue s)"

text \<open>\<open>env.run()\<close>: step until the heap is empty; an exception of a step ends the run.\<close>

function run :: "config \<Rightarrow> state \<Rightarrow> error + state" where
  "run cfg s =
     (if queue s = [] then Inr s
      else case step cfg s of Inl e \<Rightarrow> Inl e | Inr s' \<Rightarrow> run cfg s')"
  by pat_completeness auto

subsection \<open>run_simulation\<close>

text \<open>\<open>random.seed\<close> overwrites the state of the module's generator.\<close>

definition seed :: "(int \<Rightarrow> nat \<Rightarrow> real) \<Rightarrow> int \<Rightarrow> generator \<Rightarrow> generator" where
  "seed mt random_seed g = g\<lparr>stream := mt random_seed, pos := 0\<rparr>"

text \<open>The state after \<open>env.process(source(...))\<close>: a fresh environment, a free server,
  empty lists, and the initialisation event of the source process in the heap.\<close>

definition initial :: "generator \<Rightarrow> state" where
  "initial g =
     schedule InitSource URGENT 0
       \<lparr>now = 0, queue = [], eid = 0, users = [], put_queue = [], wait_times = [],
        waiting = [], loss = [], gen = g, trace_log = []\<rparr>"

text \<open>\<open>np.mean\<close> of an empty list is NaN, modelled by \<open>None\<close>.\<close>

definition mean :: "real list \<Rightarrow> real option" where
  "mean xs = (if xs = [] then None else Some (sum_list xs / real (length xs)))"

definition statistics :: "state \<Rightarrow> real option \<times> nat" where
  "statistics s = (mean (wait_times s), length (loss s))"

text \<open>\<open>run_simulation\<close>, with the generator of the random module before the call as
  last argument. The result is the exception raised or the pair returned.\<close>

definition run_simulation ::
  "(int \<Rightarrow> nat \<Rightarrow> real) \<Rightarrow> real \<Rightarrow> real \<Rightarrow> int \<Rightarrow> int \<Rightarrow> int \<Rightarrow> bool \<Rightarrow> generator
     \<Rightarrow> error + (real option \<times> nat)" where
  "run_simulation mt mean_ia_time' mean_srv_time' system_capacity' num_packets random_seed
       trace' g =
     (let cfg = \<lparr>mean_ia_time = mean_ia_time', mean_srv_time = mean_srv_time',
                 system_capacity = system_capacity', number = num_packets, trace = trace'\<rparr>
      in case run cfg (initial (seed mt random_seed g)) of
           Inl e \<Rightarrow> Inl e
         | Inr s \<Rightarrow> Inr (statistics s))"

text \<open>The states of a run: those that \<open>env.run()\<close> passes through, between two steps.\<close>

inductive reachable :: "config \<Rightarrow> state \<Rightarrow> state \<Rightarrow> bool" for cfg s0 where
  start: "reachable cfg s0 s0"
| next_step: "reachable cfg s0 s \<Longrightarrow> queue s \<noteq> [] \<Longrightarrow> step cfg s = Inr s' \<Longrightarrow> reachable cfg s0 s'"

text \<open>A generator with a given finite prefix of values, then zeros.\<close>

definition script :: "real list \<Rightarrow> int \<Rightarrow> nat \<Rightarrow> real" where
  "script xs random_seed n = (if n < length xs then xs ! n else 0)"

section \<open>Notions for the proofs\<close>

text \<open>The number of entries of the heap whose event satisfies a predicate.\<close>

definition count :: "(event \<Rightarrow> bool) \<Rightarrow> entry list \<Rightarrow> nat" where
  "count P q = length (filter (\<lambda>x. P (ev_of x)) q)"

fun holds_server :: "event \<Rightarrow> bool" where
  "holds_server (Request r) = True"
| "holds_server (ServiceTimeout r) = True"
| "holds_server ev = False"

text \<open>The server: at most one request holds it, the requests that hold it are
  those whose request event or service timeout is in the heap, and a waiting request is
  behind a holder or a release event that is still to come.\<close>

definition inv_server :: "state \<Rightarrow> bool" where
  "inv_server s \<longleftrightarrow>
     length (users s) \<le> 1 \<and>
     length (users s) = count holds_server (queue s) \<and>
     (\<forall>x \<in> set (queue s). \<forall>r. ev_of x = Request r \<or> ev_of x = ServiceTimeout r \<longrightarrow> r \<in> set (users s)) \<and>
     (put_queue s \<noteq> [] \<longrightarrow> users s \<noteq> [] \<or> (\<exists>x \<in> set (queue s). ev_of x = Release))"

text \<open>Under \<open>trace\<close>, every request that waits for the server or holds it has its entry
  in \<open>waiting\<close>.\<close>

definition inv_occ :: "config \<Rightarrow> state \<Rightarrow> bool" where
  "inv_occ cfg s \<longleftrightarrow>
     (trace cfg \<longrightarrow> length (put_queue s) + length (users s) \<le> length (waiting s))"

text \<open>The preconditions on the means, and a generator without negative samples (the
  value \<open>-log(1.0 - random())\<close> is never negative).\<close>

definition valid :: "(int \<Rightarrow> nat \<Rightarrow> real) \<Rightarrow> int \<Rightarrow> config \<Rightarrow> bool" where
  "valid mt sd cfg \<longleftrightarrow> 0 < mean_ia_time cfg \<and> 0 < mean_srv_time cfg \<and> (\<forall>n. 0 \<le> mt sd n)"

text \<open>The values that \<open>source\<close> computes for customer \<open>j\<close>: the two calls of
  \<open>expovariate\<close> of iteration \<open>j\<close> take the samples \<open>2 * j\<close> and \<open>2 * j + 1\<close>, and
  customer \<open>j\<close> is spawned at the sum of the gaps before it.\<close>

definition gap :: "(int \<Rightarrow> nat \<Rightarrow> real) \<Rightarrow> int \<Rightarrow> config \<Rightarrow> nat \<Rightarrow> real" where
  "gap mt sd cfg j = mt sd (2 * j) / (1 / mean_ia_time cfg)"

definition service :: "(int \<Rightarrow> nat \<Rightarrow> real) \<Rightarrow> int \<Rightarrow> config \<Rightarrow> nat \<Rightarrow> real" where
  "service mt sd cfg j = mt sd (Suc (2 * j)) / (1 / mean_srv_time cfg)"

fun arrival :: "(int \<Rightarrow> nat \<Rightarrow> real) \<Rightarrow> int \<Rightarrow> config \<Rightarrow> nat \<Rightarrow> real" where
  "arrival mt sd cfg 0 = 0"
| "arrival mt sd cfg (Suc j) = arrival mt sd cfg j + gap mt sd cfg j"

text \<open>Every event in the heap carries the values of its customer, the events of the
  source process tell how many samples were drawn, and no process has failed.\<close>

fun good_request :: "(int \<Rightarrow> nat \<Rightarrow> real) \<Rightarrow> int \<Rightarrow> config \<Rightarrow> request \<Rightarrow> bool" where
  "good_request mt sd cfg (n, a, sv) \<longleftrightarrow> a = arrival mt sd cfg n \<and> sv = service mt sd cfg n"

fun is_source :: "event \<Rightarrow> bool" where
  "is_source InitSource = True"
| "is_source (SourceTimeout i) = True"
| "is_source ev = False"

fun event_ok :: "(int \<Rightarrow> nat \<Rightarrow> real) \<Rightarrow> int \<Rightarrow> config \<Rightarrow> nat \<Rightarrow> real \<Rightarrow> event \<Rightarrow> bool" where
  "event_ok mt sd cfg k t InitSource \<longleftrightarrow> k = 0 \<and> t = 0"
| "event_ok mt sd cfg k t (SourceTimeout i) \<longleftrightarrow>
     k = 2 * Suc i \<and> int i < number cfg \<and> t = arrival mt sd cfg (Suc i)"
| "event_ok mt sd cfg k t (InitPacket n sv) \<longleftrightarrow>
     sv = service mt sd cfg n \<and> t = arrival mt sd cfg n"
| "event_ok mt sd cfg k t (Request r) \<longleftrightarrow> good_request mt sd cfg r"
| "event_ok mt sd cfg k t (ServiceTimeout r) \<longleftrightarrow> good_request mt sd cfg r"
| "event_ok mt sd cfg k t Release \<longleftrightarrow> True"
| "event_ok mt sd cfg k t ProcessEnd \<longleftrightarrow> True"
| "event_ok mt sd cfg k t (ProcessFailed e) \<longleftrightarrow> False"

definition inv_run :: "(int \<Rightarrow> nat \<Rightarrow> real) \<Rightarrow> int \<Rightarrow> config \<Rightarrow> state \<Rightarrow> bool" where
  "inv_run mt sd cfg s \<longleftrightarrow>
     stream (gen s) = mt sd \<and>
     (\<forall>x \<in> set (queue s). event_ok mt sd cfg (pos (gen s)) (fst x) (ev_of x)) \<and>
     (\<forall>r \<in> set (put_queue s). good_request mt sd cfg r) \<and>
     count is_source (queue s) \<le> 1 \<and>
     (count is_source (queue s) = 0 \<longrightarrow> pos (gen s) = 2 * nat (number cfg))"

text \<open>Counts: two samples were drawn for every customer, and a customer is about to
  arrive, in the system, lost or served.\<close>

fun is_init_packet :: "event \<Rightarrow> bool" where
  "is_init_packet (InitPacket n sv) = True"
| "is_init_packet ev = False"

fun is_left :: "log_entry \<Rightarrow> bool" where
  "is_left (LogLeft n t occ) = True"
| "is_left e = False"

fun is_served :: "log_entry \<Rightarrow> bool" where
  "is_served (LogServed n t sv occ) = True"
| "is_served e = False"

fun waits :: "log_entry list \<Rightarrow> real list" where
  "waits [] = []"
| "waits (LogWaited n t w # lg) = w # waits lg"
| "waits (e # lg) = waits lg"

definition inv_count :: "state \<Rightarrow> bool" where
  "inv_count s \<longleftrightarrow>
     length (waiting s) = length (put_queue s) + length (users s) \<and>
     pos (gen s) = 2 * (count is_init_packet (queue s) + length (waiting s) + length (loss s)
                        + length (filter is_served (trace_log s))) \<and>
     length (loss s) = length (filter is_left (trace_log s)) \<and>
     wait_times s = waits (trace_log s)"

text \<open>The customers that were served and left: the lines of line 55 of the source.\<close>

definition departed :: "state \<Rightarrow> nat" where
  "departed s = length (filter is_served (trace_log s))"

text \<open>With a capacity of at most 0 and tracing on, no customer reaches the server.\<close>

definition inv_zero :: "state \<Rightarrow> bool" where
  "inv_zero s \<longleftrightarrow>
     waiting s = [] \<and> put_queue s = [] \<and> count holds_server (queue s) = 0 \<and>
     wait_times s = [] \<and> filter is_served (trace_log s) = []"

text \<open>With tracing off, no customer reaches the admission check.\<close>

definition inv_notrace :: "state \<Rightarrow> bool" where
  "inv_notrace s \<longleftrightarrow>
     put_queue s = [] \<and> count holds_server (queue s) = 0 \<and> wait_times s = [] \<and>
     loss s = [] \<and> trace_log s = [] \<and>
     pos (gen s) = 2 * (count is_init_packet (queue s) + length (waiting s))"

text \<open>The occupancy \<open>len(waiting)\<close> that a line of the log shows.\<close>

fun log_occupancy :: "log_entry \<Rightarrow> nat option" where
  "log_occupancy (LogArrived n t occ) = Some occ"
| "log_occupancy (LogLeft n t occ) = Some occ"
| "log_occupancy (LogWaited n t w) = None"
| "log_occupancy (LogServed n t sv occ) = Some occ"

fun request_of :: "event \<Rightarrow> request option" where
  "request_of (Request r) = Some r"
| "request_of (ServiceTimeout r) = Some r"
| "request_of ev = None"

text \<open>A request of a customer whose arrival line shows an occupancy within the capacity.\<close>

definition admitted :: "int \<Rightarrow> log_entry list \<Rightarrow> nat \<Rightarrow> real \<Rightarrow> bool" where
  "admitted k lg n a \<longleftrightarrow> (\<exists>occ. LogArrived n a occ \<in> set lg \<and> int occ \<le> k)"

definition inv_cap :: "int \<Rightarrow> state \<Rightarrow> bool" where
  "inv_cap k s \<longleftrightarrow>
     int (length (waiting s)) \<le> k \<and>
     (\<forall>e \<in> set (trace_log s). \<forall>occ. log_occupancy e = Some occ \<longrightarrow> int occ \<le> k + 1) \<and>
     (\<forall>n a occ. LogArrived n a occ \<in> set (trace_log s) \<and> k < int occ \<longrightarrow>
        LogLeft n a (occ - 1) \<in> set (trace_log s)) \<and>
     (\<forall>r \<in> set (put_queue s). admitted k (trace_log s) (fst r) (fst (snd r))) \<and>
     (\<forall>x \<in> set (queue s). \<forall>r. request_of (ev_of x) = Some r \<longrightarrow>
        admitted k (trace_log s) (fst r) (fst (snd r))) \<and>
     (\<forall>n t w. LogWaited n t w \<in> set (trace_log s) \<longrightarrow> admitted k (trace_log s) n (t - w))"

text \<open>Every customer is in one place: one count per name.\<close>

fun log_name :: "log_entry \<Rightarrow> nat" where
  "log_name (LogArrived n t occ) = n"
| "log_name (LogLeft n t occ) = n"
| "log_name (LogWaited n t w) = n"
| "log_name (LogServed n t sv occ) = n"

fun is_arrived :: "log_entry \<Rightarrow> bool" where
  "is_arrived (LogArrived n t occ) = True"
| "is_arrived e = False"

fun is_waited :: "log_entry \<Rightarrow> bool" where
  "is_waited (LogWaited n t w) = True"
| "is_waited e = False"

text \<open>The number of lines of one kind that the log has for customer \<open>n\<close>.\<close>

definition tally :: "(log_entry \<Rightarrow> bool) \<Rightarrow> nat \<Rightarrow> log_entry list \<Rightarrow> nat" where
  "tally P n lg = length (filter (\<lambda>e. P e \<and> log_name e = n) lg)"

fun packet_of :: "event \<Rightarrow> nat option" where
  "packet_of (InitPacket n sv) = Some n"
| "packet_of (Request r) = Some (fst r)"
| "packet_of (ServiceTimeout r) = Some (fst r)"
| "packet_of ev = None"

fun starting :: "nat \<Rightarrow> event \<Rightarrow> bool" where
  "starting n (InitPacket m sv) = (m = n)"
| "starting n ev = False"

fun serving :: "nat \<Rightarrow> event \<Rightarrow> bool" where
  "serving n (ServiceTimeout r) = (fst r = n)"
| "serving n ev = False"

definition in_flight :: "nat \<Rightarrow> state \<Rightarrow> nat" where
  "in_flight n s =
     count (\<lambda>ev. packet_of ev = Some n) (queue s) + length (filter (\<lambda>r. fst r = n) (put_queue s))"

definition names_ok :: "nat \<Rightarrow> state \<Rightarrow> bool" where
  "names_ok n s \<longleftrightarrow>
     in_flight n s + tally is_left n (trace_log s) + tally is_served n (trace_log s)
       = (if 2 * n < pos (gen s) then 1 else 0) \<and>
     tally is_waited n (trace_log s)
       = count (serving n) (queue s) + tally is_served n (trace_log s) \<and>
     tally is_arrived n (trace_log s) + count (starting n) (queue s)
       = (if 2 * n < pos (gen s) then 1 else 0)"

text \<open>The times and service times that the log shows.\<close>

fun log_ok :: "(int \<Rightarrow> nat \<Rightarrow> real) \<Rightarrow> int \<Rightarrow> config \<Rightarrow> log_entry \<Rightarrow> bool" where
  "log_ok mt sd cfg (LogArrived n t occ) \<longleftrightarrow> t = arrival mt sd cfg n"
| "log_ok mt sd cfg (LogLeft n t occ) \<longleftrightarrow> t = arrival mt sd cfg n"
| "log_ok mt sd cfg (LogWaited n t w) \<longleftrightarrow> w = t - arrival mt sd cfg n"
| "log_ok mt sd cfg (LogServed n t sv occ) \<longleftrightarrow> sv = service mt sd cfg n"

definition inv_log :: "(int \<Rightarrow> nat \<Rightarrow> real) \<Rightarrow> int \<Rightarrow> config \<Rightarrow> state \<Rightarrow> bool" where
  "inv_log mt sd cfg s \<longleftrightarrow> (\<forall>e \<in> set (trace_log s). log_ok mt sd cfg e)"

text \<open>The clock never runs ahead of an event in the heap.\<close>

definition timely :: "state \<Rightarrow> bool" where
  "timely s \<longleftrightarrow>
     sorted_wrt (\<lambda>x y. fst x \<le> fst y) (queue s) \<and> (\<forall>x \<in> set (queue s). now s \<le> fst x)"

text \<open>Once the source process has ended, the clock has passed the last gap.\<close>

definition source_done :: "(int \<Rightarrow> nat \<Rightarrow> real) \<Rightarrow> int \<Rightarrow> config \<Rightarrow> state \<Rightarrow> bool" where
  "source_done mt sd cfg s \<longleftrightarrow>
     (count is_source (queue s) = 0 \<longrightarrow> arrival mt sd cfg (nat (number cfg)) \<le> now s)"

text \<open>The state after at most \<open>j\<close> steps of \<open>env.run()\<close>.\<close>

fun iterate :: "config \<Rightarrow> nat \<Rightarrow> state \<Rightarrow> state" where
  "iterate cfg 0 s = s"
| "iterate cfg (Suc j) s =
     (if queue s = [] then s
      else case step cfg s of Inl e \<Rightarrow> s | Inr s' \<Rightarrow> iterate cfg j s')"

text \<open>A request event is in the heap only at the time at which the server was granted:
  the clock does not move before the event is popped.\<close>

fun is_request :: "event \<Rightarrow> bool" where
  "is_request (Request r) = True"
| "is_request ev = False"

definition granted_now :: "state \<Rightarrow> bool" where
  "granted_now s \<longleftrightarrow> (\<forall>x \<in> set (queue s). is_request (ev_of x) \<longrightarrow> fst x = now s)"

section \<open>Termination of the event loop\<close>

lemma total_Nil [simp]: "total f [] = 0"
  by (simp add: total_def)

lemma ev_of_simp [simp]: "ev_of (t, p, i, ev) = ev"
  by (simp add: ev_of_def)

lemma total_Cons [simp]: "total f (x # q) = f (ev_of x) + total f q"
  by (simp add: total_def)

lemma total_heappush [simp]: "total f (heappush x q) = f (ev_of x) + total f q"
  by (induction q) auto

lemma potential_schedule [simp]:
  "potential cfg (schedule ev p d s) = weight cfg ev + potential cfg s"
  by (simp add: potential_def schedule_def)

lemma potential_finish [simp]: "potential cfg (finish s) = Suc (potential cfg s)"
  by (simp add: finish_def)

lemma potential_fail [simp]: "potential cfg (fail e s) = Suc (potential cfg s)"
  by (simp add: fail_def)

lemma potential_trigger_put [simp]: "potential cfg (trigger_put s) = potential cfg s"
  by (simp add: trigger_put_def potential_def schedule_def split: list.splits)

lemma potential_request [simp]: "potential cfg (request r s) = 4 + potential cfg s"
  by (simp add: request_def) (simp add: potential_def)

lemma potential_release [simp]: "potential cfg (release r s) = Suc (potential cfg s)"
  by (simp add: release_def) (simp add: potential_def)

lemma potential_upd [simp]:
  "potential cfg (s\<lparr>gen := g\<rparr>) = potential cfg s"
  "potential cfg (s\<lparr>waiting := w\<rparr>) = potential cfg s"
  "potential cfg (s\<lparr>loss := l\<rparr>) = potential cfg s"
  "potential cfg (s\<lparr>wait_times := ws\<rparr>) = potential cfg s"
  "potential cfg (s\<lparr>trace_log := lg\<rparr>) = potential cfg s"
  "potential cfg (s\<lparr>now := t\<rparr>) = potential cfg s"
  by (simp_all add: potential_def)

lemma potential_source:
  "potential cfg (source cfg i s) < potential cfg s + 6 * (nat (number cfg) - i) + 2"
proof (cases "int i < number cfg")
  case True
  then have "6 * (nat (number cfg) - Suc i) + 6 = 6 * (nat (number cfg) - i)" by arith
  with True show ?thesis
    by (auto simp: source_def expovariate_def Let_def)
next
  case False
  then show ?thesis by (simp add: source_def)
qed

lemma potential_packet_arrive:
  "potential cfg (packet_arrive cfg n sv s) \<le> potential cfg s + 4"
  by (auto simp: packet_arrive_def Let_def)

lemma potential_packet_granted:
  "potential cfg (packet_granted cfg r s) \<le> potential cfg s + 3"
  by (auto simp: packet_granted_def Let_def split: prod.splits)

lemma potential_packet_depart:
  "potential cfg (packet_depart cfg r s) \<le> potential cfg s + 2"
  by (auto simp: packet_depart_def Let_def split: prod.splits)

lemma potential_dispatch:
  "potential cfg (dispatch cfg ev s) < potential cfg s + weight cfg ev"
proof (cases ev)
  case InitSource
  then show ?thesis using potential_source [of cfg 0 s] by simp
next
  case (SourceTimeout i)
  then show ?thesis using potential_source [of cfg "Suc i" s] by simp
next
  case (InitPacket n sv)
  then show ?thesis using potential_packet_arrive [of cfg n sv s] by simp
next
  case (Request r)
  then show ?thesis using potential_packet_granted [of cfg r s] by simp
next
  case (ServiceTimeout r)
  then show ?thesis using potential_packet_depart [of cfg r s] by simp
qed simp_all

lemma potential_step:
  assumes "queue s \<noteq> []" and "step cfg s = Inr s'"
  shows "potential cfg s' < potential cfg s"
proof -
  from assms(1) obtain t p i ev q' where qs: "queue s = (t, p, i, ev) # q'"
    by (cases "queue s") auto
  from assms(2) qs have s': "s' = dispatch cfg ev (s\<lparr>now := t, queue := q'\<rparr>)"
    by (auto simp: step_def split: event.splits)
  have "potential cfg (s\<lparr>now := t, queue := q'\<rparr>) + weight cfg ev = potential cfg s"
    using qs by (simp add: potential_def)
  then show ?thesis
    using potential_dispatch [of cfg ev "s\<lparr>now := t, queue := q'\<rparr>"] s' by simp
qed

termination run
  by (relation "measure (\<lambda>(cfg, s). potential cfg s)") (auto simp: potential_step)

declare run.simps [simp del]

section \<open>Invariants of a run\<close>

lemmas model_defs =
  run_simulation_def initial_def seed_def schedule_def URGENT_def NORMAL_def step_def
  source_def expovariate_def script_def finish_def fail_def packet_arrive_def
  packet_granted_def packet_depart_def request_def release_def trigger_put_def
  statistics_def mean_def Let_def

lemma count_Nil [simp]: "count P [] = 0"
  by (simp add: count_def)

lemma count_Cons [simp]: "count P (x # q) = (if P (ev_of x) then Suc (count P q) else count P q)"
  by (simp add: count_def)

lemma count_heappush [simp]:
  "count P (heappush x q) = (if P (ev_of x) then Suc (count P q) else count P q)"
  by (induction q) auto

lemma count_zero_iff: "count P q = 0 \<longleftrightarrow> (\<forall>x \<in> set q. \<not> P (ev_of x))"
  by (induction q) auto

lemma count_zeroD: "count P q = 0 \<Longrightarrow> x \<in> set q \<Longrightarrow> \<not> P (ev_of x)"
  by (simp add: count_zero_iff)

lemma set_heappush [simp]: "set (heappush x q) = insert x (set q)"
  by (induction q) auto

lemma step_Cons:
  "queue s = (t, p, i, ev) # q \<Longrightarrow>
   step cfg s = (case ev of ProcessFailed e \<Rightarrow> Inl e
                 | _ \<Rightarrow> Inr (dispatch cfg ev (s\<lparr>now := t, queue := q\<rparr>)))"
  by (simp add: step_def)

lemma reachable_invariant [consumes 1, case_names init dispatch]:
  assumes "reachable cfg s0 s" and "P s0"
    and "\<And>s t p i ev q. reachable cfg s0 s \<Longrightarrow> P s \<Longrightarrow> queue s = (t, p, i, ev) # q \<Longrightarrow>
           \<forall>e. ev \<noteq> ProcessFailed e \<Longrightarrow> P (dispatch cfg ev (s\<lparr>now := t, queue := q\<rparr>))"
  shows "P s"
  using assms(1)
proof (induction rule: reachable.induct)
  case start
  show ?case by (rule assms(2))
next
  case (next_step s s')
  from next_step(2) obtain t p i ev q where q: "queue s = (t, p, i, ev) # q"
    by (cases "queue s") auto
  with next_step(3) have "\<forall>e. ev \<noteq> ProcessFailed e"
    and "s' = dispatch cfg ev (s\<lparr>now := t, queue := q\<rparr>)"
    by (auto simp: step_Cons split: event.splits)
  with assms(3) [OF next_step(1) next_step.IH q] show ?case by simp
qed

lemmas ops_defs = schedule_def finish_def fail_def request_def release_def trigger_put_def

lemma inv_server_dispatch:
  assumes "inv_server s" and "queue s = (t, p, i, ev) # q"
  shows "inv_server (dispatch cfg ev (s\<lparr>now := t, queue := q\<rparr>))"
proof (cases ev)
  case InitSource
  with assms show ?thesis
    by (auto simp: inv_server_def source_def expovariate_def ops_defs Let_def)
next
  case (SourceTimeout j)
  with assms show ?thesis
    by (auto simp: inv_server_def source_def expovariate_def ops_defs Let_def)
next
  case (InitPacket n sv)
  with assms show ?thesis
    by (auto simp: inv_server_def packet_arrive_def ops_defs Let_def split: list.splits)
next
  case (Request r)
  with assms show ?thesis
    apply (cases "users s")
    by (auto simp: inv_server_def packet_granted_def ops_defs Let_def split: list.splits prod.splits dest: count_zeroD)
next
  case (ServiceTimeout r)
  with assms show ?thesis
    apply (cases "users s")
    by (auto simp: inv_server_def packet_depart_def ops_defs Let_def split: list.splits prod.splits dest: count_zeroD)
next
  case Release
  with assms show ?thesis
    by (auto simp: inv_server_def ops_defs Let_def split: list.splits)
next
  case ProcessEnd
  with assms show ?thesis
    by (auto simp: inv_server_def)
next
  case (ProcessFailed e)
  with assms show ?thesis
    by (auto simp: inv_server_def)
qed

lemma inv_server_reachable:
  assumes "reachable cfg (initial g) s"
  shows "inv_server s"
  using assms
proof (induction rule: reachable_invariant)
  case init
  show ?case by (simp add: inv_server_def initial_def schedule_def)
next
  case (dispatch s t p i ev q)
  then show ?case by (simp add: inv_server_dispatch)
qed

lemma length_remove1_le: "length (remove1 x xs) \<le> length xs"
  by (simp add: length_remove1)

lemma inv_occ_dispatch:
  assumes "inv_occ cfg s" and "inv_server s" and "queue s = (t, p, i, ev) # q"
  shows "inv_occ cfg (dispatch cfg ev (s\<lparr>now := t, queue := q\<rparr>))"
proof (cases ev)
  case InitSource
  with assms show ?thesis
    by (auto simp: inv_occ_def source_def expovariate_def ops_defs Let_def)
next
  case (SourceTimeout j)
  with assms show ?thesis
    by (auto simp: inv_occ_def source_def expovariate_def ops_defs Let_def)
next
  case (InitPacket n sv)
  with assms show ?thesis
    by (cases "put_queue s") (auto simp: inv_occ_def packet_arrive_def ops_defs Let_def)
next
  case (Request r)
  with assms(1) show ?thesis
    using length_remove1_le [of r "users s"]
    by (auto simp: inv_occ_def packet_granted_def ops_defs Let_def split: prod.splits)
next
  case (ServiceTimeout r)
  with assms(2,3) have "r \<in> set (users s)"
    by (cases r) (auto simp: inv_server_def)
  then have "users s \<noteq> []" by auto
  with \<open>r \<in> set (users s)\<close>
  have "length (remove1 r (users s)) < length (users s)"
    by (simp add: length_remove1)
  with ServiceTimeout assms(1) \<open>users s \<noteq> []\<close> show ?thesis
    by (auto simp: inv_occ_def packet_depart_def ops_defs Let_def split: prod.splits)
next
  case Release
  with assms show ?thesis
    by (auto simp: inv_occ_def ops_defs Let_def split: list.splits)
next
  case ProcessEnd
  with assms show ?thesis
    by (auto simp: inv_occ_def)
next
  case (ProcessFailed e)
  with assms show ?thesis
    by (auto simp: inv_occ_def)
qed

lemma inv_occ_reachable:
  assumes "reachable cfg (initial g) s"
  shows "inv_occ cfg s"
  using assms
proof (induction rule: reachable_invariant)
  case init
  show ?case by (simp add: inv_occ_def initial_def schedule_def)
next
  case (dispatch s t p i ev q)
  then show ?case by (simp add: inv_occ_dispatch inv_server_reachable)
qed

lemma gap_nonneg: "valid mt sd cfg \<Longrightarrow> 0 \<le> gap mt sd cfg j"
  by (simp add: valid_def gap_def)

lemma service_nonneg: "valid mt sd cfg \<Longrightarrow> 0 \<le> service mt sd cfg j"
  by (simp add: valid_def service_def)

lemma event_ok_pos: "\<not> is_source ev \<Longrightarrow> event_ok mt sd cfg k t ev = event_ok mt sd cfg k' t ev"
  by (cases ev) auto

lemma source_valid:
  assumes "valid mt sd cfg" and "stream (gen s) = mt sd" and "pos (gen s) = 2 * i"
    and "int i < number cfg"
  shows "source cfg i s =
     schedule (SourceTimeout i) NORMAL (gap mt sd cfg i)
       (schedule (InitPacket i (service mt sd cfg i)) URGENT 0
          (s\<lparr>gen := (gen s)\<lparr>pos := 2 * Suc i\<rparr>\<rparr>))"
proof -
  have "\<not> gap mt sd cfg i < 0" "\<not> service mt sd cfg i < 0"
    using gap_nonneg [OF assms(1), of i] service_nonneg [OF assms(1), of i] by simp_all
  then show ?thesis using assms
    by (simp add: source_def expovariate_def valid_def gap_def service_def Let_def)
qed

lemma inv_run_source:
  assumes "valid mt sd cfg" and "inv_run mt sd cfg s" and "queue s = (t, p, e, ev) # q"
    and "is_source ev" and "i = (case ev of SourceTimeout j \<Rightarrow> Suc j | _ \<Rightarrow> 0)"
  shows "inv_run mt sd cfg (source cfg i (s\<lparr>now := t, queue := q\<rparr>))"
proof -
  from assms(2,3,4) have cq: "count is_source q = 0"
    by (auto simp: inv_run_def)
  then have nosrc: "\<And>x. x \<in> set q \<Longrightarrow> \<not> is_source (ev_of x)"
    by (simp add: count_zeroD)
  from assms(2,3) have old: "\<And>x. x \<in> set q \<Longrightarrow> event_ok mt sd cfg (pos (gen s)) (fst x) (ev_of x)"
    by (auto simp: inv_run_def)
  have keep: "\<And>x k. x \<in> set q \<Longrightarrow> event_ok mt sd cfg k (fst x) (ev_of x)"
    using old nosrc event_ok_pos by blast
  from assms(2,3,4,5) have here: "pos (gen s) = 2 * i" "t = arrival mt sd cfg i"
    "int i \<le> number cfg \<or> (i = 0)" "stream (gen s) = mt sd"
    by (cases ev; auto simp: inv_run_def)+
  show ?thesis
  proof (cases "int i < number cfg")
    case True
    have "source cfg i (s\<lparr>now := t, queue := q\<rparr>) =
      schedule (SourceTimeout i) NORMAL (gap mt sd cfg i)
       (schedule (InitPacket i (service mt sd cfg i)) URGENT 0
          (s\<lparr>now := t, queue := q, gen := (gen s)\<lparr>pos := 2 * Suc i\<rparr>\<rparr>))"
      using source_valid [OF assms(1), of "s\<lparr>now := t, queue := q\<rparr>" i] here True by simp
    then show ?thesis
      using assms(2) True here cq keep
      by (auto simp: inv_run_def schedule_def)
  next
    case False
    with here have "i = nat (number cfg)" by auto
    with False show ?thesis
      using assms(2) here cq keep
      by (auto simp: inv_run_def source_def finish_def schedule_def)
  qed
qed

lemma inv_run_dispatch:
  assumes "valid mt sd cfg" and "inv_run mt sd cfg s" and "inv_server s" and "inv_occ cfg s"
    and "queue s = (t, p, e, ev) # q"
  shows "inv_run mt sd cfg (dispatch cfg ev (s\<lparr>now := t, queue := q\<rparr>))"
proof (cases ev)
  case InitSource
  then show ?thesis
    using inv_run_source [OF assms(1,2,5), of 0] by simp
next
  case (SourceTimeout j)
  then show ?thesis
    using inv_run_source [OF assms(1,2,5), of "Suc j"] by simp
next
  case (InitPacket n sv)
  with assms(2,5) show ?thesis
    by (cases "put_queue s") (auto simp: inv_run_def packet_arrive_def ops_defs Let_def)
next
  case (Request r)
  obtain n a sv where r: "r = (n, a, sv)" by (cases r)
  with Request assms(2,5) have "sv = service mt sd cfg n"
    by (auto simp: inv_run_def)
  then have "\<not> sv < 0"
    using service_nonneg [OF assms(1), of n] by simp
  with Request r assms(2,5) show ?thesis
    by (auto simp: inv_run_def packet_granted_def ops_defs Let_def)
next
  case (ServiceTimeout r)
  with assms(3,5) have "r \<in> set (users s)"
    by (cases r) (auto simp: inv_server_def)
  then have "users s \<noteq> []" by auto
  with assms(4) have "trace cfg \<Longrightarrow> waiting s \<noteq> []"
    by (auto simp: inv_occ_def)
  with ServiceTimeout assms(2,5) show ?thesis
    by (cases r) (auto simp: inv_run_def packet_depart_def ops_defs Let_def)
next
  case Release
  with assms(2,5) show ?thesis
    by (cases "put_queue s") (auto simp: inv_run_def ops_defs Let_def)
next
  case ProcessEnd
  with assms(2,5) show ?thesis
    by (auto simp: inv_run_def)
next
  case (ProcessFailed e)
  with assms(2,5) show ?thesis
    by (auto simp: inv_run_def)
qed

lemma inv_run_reachable:
  assumes "valid mt sd cfg" and "reachable cfg (initial (seed mt sd g)) s"
  shows "inv_run mt sd cfg s"
  using assms(2)
proof (induction rule: reachable_invariant)
  case init
  show ?case by (simp add: inv_run_def initial_def schedule_def seed_def)
next
  case (dispatch s t p i ev q)
  then show ?case
    using inv_run_dispatch [OF assms(1)] inv_server_reachable inv_occ_reachable by blast
qed

lemma run_reachable:
  "run cfg s = Inr s' \<Longrightarrow> reachable cfg s0 s \<Longrightarrow> reachable cfg s0 s' \<and> queue s' = []"
proof (induction cfg s rule: run.induct)
  case (1 cfg s)
  show ?case
  proof (cases "queue s = []")
    case True
    with 1 show ?thesis by (simp add: run.simps)
  next
    case False
    with "1.prems"(1) obtain s1 where s1: "step cfg s = Inr s1" "run cfg s1 = Inr s'"
      by (auto simp: run.simps [of cfg s] split: sum.splits)
    with False "1.prems"(2) have "reachable cfg s0 s1"
      by (auto intro: reachable.next_step)
    with "1.IH" [OF False s1(1) s1(2)] show ?thesis by simp
  qed
qed

lemma run_returns:
  "\<forall>s t p i ev q. reachable cfg s0 s \<longrightarrow> queue s = (t, p, i, ev) # q \<longrightarrow>
             (\<forall>e. ev \<noteq> ProcessFailed e) \<Longrightarrow>
   reachable cfg s0 s \<Longrightarrow> \<exists>s'. run cfg s = Inr s'"
proof (induction cfg s rule: run.induct)
  case (1 cfg s)
  show ?case
  proof (cases "queue s = []")
    case True
    then show ?thesis by (simp add: run.simps)
  next
    case False
    then obtain t p i ev q where q: "queue s = (t, p, i, ev) # q"
      by (cases "queue s") auto
    with "1.prems" have "\<forall>e. ev \<noteq> ProcessFailed e" by blast
    with q have "step cfg s = Inr (dispatch cfg ev (s\<lparr>now := t, queue := q\<rparr>))"
      by (cases ev) (simp_all add: step_Cons)
    then obtain s1 where s1: "step cfg s = Inr s1" ..
    with False "1.prems" have "reachable cfg s0 s1"
      by (auto intro: reachable.next_step)
    with "1.IH" [OF False s1 "1.prems"(1)] False s1 show ?thesis
      by (simp add: run.simps [of cfg s])
  qed
qed

lemma run_valid:
  assumes "valid mt sd cfg"
  shows "\<exists>s. run cfg (initial (seed mt sd g)) = Inr s \<and> reachable cfg (initial (seed mt sd g)) s
          \<and> queue s = []"
proof -
  have "\<forall>s t p i ev q. reachable cfg (initial (seed mt sd g)) s \<longrightarrow>
          queue s = (t, p, i, ev) # q \<longrightarrow> (\<forall>e. ev \<noteq> ProcessFailed e)"
  proof (intro allI impI)
    fix s t p i ev q e
    assume "reachable cfg (initial (seed mt sd g)) s" and q: "queue s = (t, p, i, ev) # q"
    then have "inv_run mt sd cfg s"
      using inv_run_reachable [OF assms] by simp
    with q show "ev \<noteq> ProcessFailed e"
      by (auto simp: inv_run_def)
  qed
  then have "\<exists>s'. run cfg (initial (seed mt sd g)) = Inr s'"
    by (rule run_returns) (rule reachable.start)
  then obtain s' where "run cfg (initial (seed mt sd g)) = Inr s'" ..
  with run_reachable [OF this reachable.start] show ?thesis by auto
qed

lemma waits_append [simp]: "waits (xs @ ys) = waits xs @ waits ys"
  by (induction xs rule: waits.induct) auto

lemma source_effect:
  assumes "valid mt sd cfg" and "inv_run mt sd cfg s" and "queue s = (t, p, e, ev) # q"
    and "is_source ev"
  shows "\<exists>i. pos (gen s) = 2 * i \<and> t = arrival mt sd cfg i \<and> count is_source q = 0 \<and>
     (\<not> int i < number cfg \<longrightarrow> i = nat (number cfg)) \<and>
     dispatch cfg ev (s\<lparr>now := t, queue := q\<rparr>) =
       (if int i < number cfg
        then schedule (SourceTimeout i) NORMAL (gap mt sd cfg i)
               (schedule (InitPacket i (service mt sd cfg i)) URGENT 0
                  (s\<lparr>now := t, queue := q, gen := (gen s)\<lparr>pos := 2 * Suc i\<rparr>\<rparr>))
        else finish (s\<lparr>now := t, queue := q\<rparr>))"
proof -
  define i where "i = (case ev of SourceTimeout j \<Rightarrow> Suc j | _ \<Rightarrow> 0)"
  from assms(2,3,4) have here: "pos (gen s) = 2 * i" "t = arrival mt sd cfg i"
    "stream (gen s) = mt sd" "\<not> int i < number cfg \<longrightarrow> i = nat (number cfg)"
    "count is_source q = 0"
    by (cases ev; auto simp: inv_run_def i_def)+
  from assms(4) have d: "dispatch cfg ev (s\<lparr>now := t, queue := q\<rparr>) = source cfg i (s\<lparr>now := t, queue := q\<rparr>)"
    by (cases ev) (auto simp: i_def)
  show ?thesis
  proof (cases "int i < number cfg")
    case True
    then show ?thesis
      using source_valid [OF assms(1), of "s\<lparr>now := t, queue := q\<rparr>" i] here d
      by (intro exI [of _ i]) simp
  next
    case False
    then show ?thesis
      using here d by (intro exI [of _ i]) (simp add: source_def)
  qed
qed

lemma granted_effect:
  assumes "valid mt sd cfg" and "inv_run mt sd cfg s" and "queue s = (t, p, e, Request (n, a, sv)) # q"
  shows "dispatch cfg (Request (n, a, sv)) (s\<lparr>now := t, queue := q\<rparr>) =
     schedule (ServiceTimeout (n, a, sv)) NORMAL sv
       (s\<lparr>now := t, queue := q, wait_times := wait_times s @ [t - a],
          trace_log := trace_log s @ [LogWaited n t (t - a)]\<rparr>)"
proof -
  from assms(2,3) have "sv = service mt sd cfg n"
    by (auto simp: inv_run_def)
  then have "\<not> sv < 0"
    using service_nonneg [OF assms(1), of n] by simp
  then show ?thesis
    by (simp add: packet_granted_def Let_def)
qed

lemma depart_effect:
  assumes "trace cfg" and "inv_server s" and "inv_occ cfg s"
    and "queue s = (t, p, e, ServiceTimeout (n, a, sv)) # q"
  shows "users s = [(n, a, sv)] \<and> waiting s \<noteq> [] \<and>
     dispatch cfg (ServiceTimeout (n, a, sv)) (s\<lparr>now := t, queue := q\<rparr>) =
       finish (schedule Release NORMAL 0
         (s\<lparr>now := t, queue := q, waiting := butlast (waiting s),
            trace_log := trace_log s @ [LogServed n t sv (length (waiting s) - 1)],
            users := []\<rparr>))"
proof -
  from assms(2,4) have "(n, a, sv) \<in> set (users s)" "length (users s) \<le> 1"
    by (auto simp: inv_server_def)
  then have u: "users s = [(n, a, sv)]"
    by (cases "users s") auto
  with assms(1,3) have w: "waiting s \<noteq> []"
    by (auto simp: inv_occ_def)
  with u assms(1) show ?thesis
    by (simp add: packet_depart_def release_def Let_def)
qed

lemma inv_count_dispatch:
  assumes "valid mt sd cfg" and "trace cfg" and "inv_count s" and "inv_run mt sd cfg s"
    and "inv_server s" and "inv_occ cfg s" and "queue s = (t, p, e, ev) # q"
  shows "inv_count (dispatch cfg ev (s\<lparr>now := t, queue := q\<rparr>))"
proof (cases ev)
  case InitSource
  then have "is_source ev" by simp
  from source_effect [OF assms(1,4,7) this] InitSource assms(3,7) show ?thesis
    by (auto simp: inv_count_def schedule_def finish_def)
next
  case (SourceTimeout j)
  then have "is_source ev" by simp
  from source_effect [OF assms(1,4,7) this] SourceTimeout assms(3,7) show ?thesis
    by (auto simp: inv_count_def schedule_def finish_def)
next
  case (InitPacket n sv)
  with assms(2,3,7) show ?thesis
    by (cases "put_queue s") (auto simp: inv_count_def packet_arrive_def ops_defs Let_def)
next
  case (Request r)
  obtain n a sv where r: "r = (n, a, sv)" by (cases r)
  with Request granted_effect [OF assms(1,4)] assms(3,7) show ?thesis
    by (auto simp: inv_count_def schedule_def)
next
  case (ServiceTimeout r)
  obtain n a sv where r: "r = (n, a, sv)" by (cases r)
  with ServiceTimeout depart_effect [OF assms(2,5,6)] assms(3,7) show ?thesis
    by (auto simp: inv_count_def schedule_def finish_def)
next
  case Release
  with assms(3,7) show ?thesis
    by (cases "put_queue s") (auto simp: inv_count_def ops_defs Let_def)
next
  case ProcessEnd
  with assms(3,7) show ?thesis
    by (auto simp: inv_count_def)
next
  case (ProcessFailed e)
  with assms(3,7) show ?thesis
    by (auto simp: inv_count_def)
qed

lemma inv_count_reachable:
  assumes "valid mt sd cfg" and "trace cfg" and "reachable cfg (initial (seed mt sd g)) s"
  shows "inv_count s"
  using assms(3)
proof (induction rule: reachable_invariant)
  case init
  show ?case by (simp add: inv_count_def initial_def schedule_def seed_def)
next
  case (dispatch s t p i ev q)
  then show ?case
    using inv_count_dispatch [OF assms(1,2)] inv_run_reachable [OF assms(1)]
      inv_server_reachable inv_occ_reachable by blast
qed

lemma inv_run_pos_le: "inv_run mt sd cfg s \<Longrightarrow> pos (gen s) \<le> 2 * nat (number cfg)"
proof (cases "count is_source (queue s) = 0")
  case True
  assume "inv_run mt sd cfg s"
  with True show ?thesis by (simp add: inv_run_def)
next
  case False
  assume inv: "inv_run mt sd cfg s"
  from False obtain x where x: "x \<in> set (queue s)" "is_source (ev_of x)"
    by (auto simp: count_zero_iff)
  with inv have "event_ok mt sd cfg (pos (gen s)) (fst x) (ev_of x)"
    by (simp add: inv_run_def)
  with x(2) show ?thesis
    by (cases "ev_of x") auto
qed

text \<open>The state in which a run with valid parameters ends.\<close>

lemma final_state:
  assumes "valid mt sd cfg"
  shows "\<exists>s. run cfg (initial (seed mt sd g)) = Inr s \<and>
           reachable cfg (initial (seed mt sd g)) s \<and> queue s = [] \<and>
           users s = [] \<and> put_queue s = [] \<and> pos (gen s) = 2 * nat (number cfg)"
proof -
  from run_valid [OF assms] obtain s where s: "run cfg (initial (seed mt sd g)) = Inr s"
    "reachable cfg (initial (seed mt sd g)) s" "queue s = []"
    by blast
  from s(2) have "inv_server s" by (rule inv_server_reachable)
  with s(3) have "users s = []" "put_queue s = []"
    by (auto simp: inv_server_def)
  moreover from s(2) have "inv_run mt sd cfg s" by (rule inv_run_reachable [OF assms])
  with s(3) have "pos (gen s) = 2 * nat (number cfg)"
    by (simp add: inv_run_def)
  ultimately show ?thesis using s by blast
qed

lemma run_simulation_eq:
  "run_simulation mt a b k n sd tr g =
     (case run \<lparr>mean_ia_time = a, mean_srv_time = b, system_capacity = k, number = n, trace = tr\<rparr>
             (initial (seed mt sd g)) of
        Inl e \<Rightarrow> Inl e | Inr s \<Rightarrow> Inr (statistics s))"
  by (simp add: run_simulation_def)

lemma script_nonneg: "\<forall>x \<in> set xs. 0 \<le> x \<Longrightarrow> \<forall>n. 0 \<le> script xs sd n"
  by (simp add: script_def)

lemma inv_zero_dispatch:
  assumes "trace cfg" and "system_capacity cfg \<le> 0" and "inv_zero s"
    and "queue s = (t, p, e, ev) # q"
  shows "inv_zero (dispatch cfg ev (s\<lparr>now := t, queue := q\<rparr>))"
proof (cases ev)
  case InitSource
  with assms show ?thesis
    by (auto simp: inv_zero_def source_def expovariate_def ops_defs Let_def)
next
  case (SourceTimeout j)
  with assms show ?thesis
    by (auto simp: inv_zero_def source_def expovariate_def ops_defs Let_def)
next
  case (InitPacket n sv)
  with assms show ?thesis
    by (auto simp: inv_zero_def packet_arrive_def ops_defs Let_def)
next
  case (Request r)
  with assms show ?thesis by (auto simp: inv_zero_def)
next
  case (ServiceTimeout r)
  with assms show ?thesis by (auto simp: inv_zero_def)
next
  case Release
  with assms show ?thesis by (auto simp: inv_zero_def ops_defs)
next
  case ProcessEnd
  with assms show ?thesis by (auto simp: inv_zero_def)
next
  case (ProcessFailed e)
  with assms show ?thesis by (auto simp: inv_zero_def)
qed

lemma inv_zero_reachable:
  assumes "trace cfg" and "system_capacity cfg \<le> 0" and "reachable cfg (initial g) s"
  shows "inv_zero s"
  using assms(3)
proof (induction rule: reachable_invariant)
  case init
  show ?case by (simp add: inv_zero_def initial_def schedule_def)
next
  case (dispatch s t p i ev q)
  then show ?case using inv_zero_dispatch [OF assms(1,2)] by blast
qed

lemma inv_notrace_dispatch:
  assumes "valid mt sd cfg" and "\<not> trace cfg" and "inv_notrace s" and "inv_run mt sd cfg s"
    and "queue s = (t, p, e, ev) # q"
  shows "inv_notrace (dispatch cfg ev (s\<lparr>now := t, queue := q\<rparr>))"
proof (cases ev)
  case InitSource
  then have "is_source ev" by simp
  from source_effect [OF assms(1,4,5) this] InitSource assms(3,5) show ?thesis
    by (auto simp: inv_notrace_def schedule_def finish_def)
next
  case (SourceTimeout j)
  then have "is_source ev" by simp
  from source_effect [OF assms(1,4,5) this] SourceTimeout assms(3,5) show ?thesis
    by (auto simp: inv_notrace_def schedule_def finish_def)
next
  case (InitPacket n sv)
  with assms(2,3,5) show ?thesis
    by (auto simp: inv_notrace_def packet_arrive_def ops_defs Let_def)
next
  case (Request r)
  with assms(3,5) show ?thesis by (auto simp: inv_notrace_def)
next
  case (ServiceTimeout r)
  with assms(3,5) show ?thesis by (auto simp: inv_notrace_def)
next
  case Release
  with assms(3,5) show ?thesis by (auto simp: inv_notrace_def ops_defs)
next
  case ProcessEnd
  with assms(3,5) show ?thesis by (auto simp: inv_notrace_def)
next
  case (ProcessFailed e)
  with assms(3,5) show ?thesis by (auto simp: inv_notrace_def)
qed

lemma inv_notrace_reachable:
  assumes "valid mt sd cfg" and "\<not> trace cfg" and "reachable cfg (initial (seed mt sd g)) s"
  shows "inv_notrace s"
  using assms(3)
proof (induction rule: reachable_invariant)
  case init
  show ?case by (simp add: inv_notrace_def initial_def schedule_def seed_def)
next
  case (dispatch s t p i ev q)
  then show ?case
    using inv_notrace_dispatch [OF assms(1,2)] inv_run_reachable [OF assms(1)] by blast
qed

text \<open>With a capacity of at least the number of customers, no customer is dropped.\<close>

lemma no_loss_dispatch:
  assumes "trace cfg" and "number cfg \<le> system_capacity cfg" and "loss s = []"
    and "inv_count s" and "inv_run mt sd cfg s" and "queue s = (t, p, e, ev) # q"
  shows "loss (dispatch cfg ev (s\<lparr>now := t, queue := q\<rparr>)) = []"
proof (cases ev)
  case InitSource
  with assms(3) show ?thesis
    by (auto simp: source_def expovariate_def ops_defs Let_def)
next
  case (SourceTimeout j)
  with assms(3) show ?thesis
    by (auto simp: source_def expovariate_def ops_defs Let_def)
next
  case (InitPacket n sv)
  from assms(4) have "pos (gen s) = 2 * (count is_init_packet (queue s) + length (waiting s)
      + length (loss s) + length (filter is_served (trace_log s)))"
    by (simp add: inv_count_def)
  with InitPacket assms(6) have "2 * (1 + length (waiting s)) \<le> pos (gen s)"
    by simp
  with inv_run_pos_le [OF assms(5)] have "1 + length (waiting s) \<le> nat (number cfg)"
    by simp
  with assms(2) have "\<not> system_capacity cfg < 1 + int (length (waiting s))"
    by linarith
  with InitPacket assms(1,3) show ?thesis
    by (cases "put_queue s") (auto simp: packet_arrive_def ops_defs Let_def)
next
  case (Request r)
  with assms(3) show ?thesis
    by (cases r) (auto simp: packet_granted_def ops_defs Let_def)
next
  case (ServiceTimeout r)
  with assms(3) show ?thesis
    by (cases r) (auto simp: packet_depart_def ops_defs Let_def)
next
  case Release
  with assms(3) show ?thesis
    by (cases "put_queue s") (auto simp: ops_defs)
next
  case ProcessEnd
  with assms(3) show ?thesis by simp
next
  case (ProcessFailed e)
  with assms(3) show ?thesis by simp
qed

lemma no_loss_reachable:
  assumes "valid mt sd cfg" and "trace cfg" and "number cfg \<le> system_capacity cfg"
    and "reachable cfg (initial (seed mt sd g)) s"
  shows "loss s = []"
  using assms(4)
proof (induction rule: reachable_invariant)
  case init
  show ?case by (simp add: initial_def schedule_def)
next
  case (dispatch s t p i ev q)
  then show ?case
    using no_loss_dispatch [OF assms(2,3)] inv_run_reachable [OF assms(1)]
      inv_count_reachable [OF assms(1,2)] by blast
qed

text \<open>The results of \<open>run_simulation\<close> in these three cases, and a bound on the loss
  count in general.\<close>

lemma valid_config:
  "0 < a \<Longrightarrow> 0 < b \<Longrightarrow> \<forall>n. 0 \<le> mt sd n \<Longrightarrow>
   valid mt sd \<lparr>mean_ia_time = a, mean_srv_time = b, system_capacity = k, number = n, trace = tr\<rparr>"
  by (simp add: valid_def)

lemma loss_bound:
  assumes "0 < a" and "0 < b" and "\<forall>n. 0 \<le> mt sd n"
  shows "\<exists>m l. run_simulation mt a b k n sd True g = Inr (m, l) \<and> l \<le> nat n"
proof -
  let ?cfg = "\<lparr>mean_ia_time = a, mean_srv_time = b, system_capacity = k, number = n, trace = True\<rparr>"
  have v: "valid mt sd ?cfg" using assms by (rule valid_config)
  from final_state [OF v, of g] obtain s where s: "run ?cfg (initial (seed mt sd g)) = Inr s"
    "reachable ?cfg (initial (seed mt sd g)) s" "pos (gen s) = 2 * nat n"
    by auto
  have "inv_count s"
    using inv_count_reachable [OF v _ s(2)] by simp
  then have "pos (gen s) = 2 * (count is_init_packet (queue s) + length (waiting s)
      + length (loss s) + length (filter is_served (trace_log s)))"
    by (simp add: inv_count_def)
  with s(3) have "length (loss s) \<le> nat n" by simp
  with s(1) show ?thesis
    by (simp add: run_simulation_eq statistics_def)
qed

lemma capacity_nonpositive:
  assumes "0 < a" and "0 < b" and "\<forall>n. 0 \<le> mt sd n" and "k \<le> 0"
  shows "run_simulation mt a b k n sd True g = Inr (None, nat n)"
proof -
  let ?cfg = "\<lparr>mean_ia_time = a, mean_srv_time = b, system_capacity = k, number = n, trace = True\<rparr>"
  have v: "valid mt sd ?cfg" using assms(1-3) by (rule valid_config)
  from final_state [OF v, of g] obtain s where s: "run ?cfg (initial (seed mt sd g)) = Inr s"
    "reachable ?cfg (initial (seed mt sd g)) s" "queue s = []" "pos (gen s) = 2 * nat n"
    by auto
  have "inv_count s"
    using inv_count_reachable [OF v _ s(2)] by simp
  then have c: "pos (gen s) = 2 * (count is_init_packet (queue s) + length (waiting s)
      + length (loss s) + length (filter is_served (trace_log s)))"
    by (simp add: inv_count_def)
  have "inv_zero s"
    using inv_zero_reachable [OF _ _ s(2)] assms(4) by simp
  then have z: "waiting s = []" "wait_times s = []" "filter is_served (trace_log s) = []"
    by (simp_all add: inv_zero_def)
  from c z s(3,4) have "length (loss s) = nat n" by simp
  with s(1) z(2) show ?thesis
    by (simp add: run_simulation_eq statistics_def mean_def)
qed

lemma capacity_large:
  assumes "0 < a" and "0 < b" and "\<forall>n. 0 \<le> mt sd n" and "n \<le> k"
  shows "\<exists>m. run_simulation mt a b k n sd True g = Inr (m, 0)"
proof -
  let ?cfg = "\<lparr>mean_ia_time = a, mean_srv_time = b, system_capacity = k, number = n, trace = True\<rparr>"
  have v: "valid mt sd ?cfg" using assms(1-3) by (rule valid_config)
  from final_state [OF v, of g] obtain s where s: "run ?cfg (initial (seed mt sd g)) = Inr s"
    "reachable ?cfg (initial (seed mt sd g)) s"
    by auto
  have "loss s = []"
    using no_loss_reachable [OF v _ _ s(2)] assms(4) by simp
  with s(1) show ?thesis
    by (simp add: run_simulation_eq statistics_def)
qed

lemma admitted_append: "admitted k lg n a \<Longrightarrow> admitted k (lg @ lg') n a"
  by (auto simp: admitted_def)

lemma inv_cap_dispatch:
  assumes "trace cfg" and "inv_cap (system_capacity cfg) s" and "queue s = (t, p, e, ev) # q"
  shows "inv_cap (system_capacity cfg) (dispatch cfg ev (s\<lparr>now := t, queue := q\<rparr>))"
proof (cases ev)
  case InitSource
  with assms show ?thesis
    by (auto simp: inv_cap_def source_def expovariate_def ops_defs Let_def)
next
  case (SourceTimeout j)
  with assms show ?thesis
    by (auto simp: inv_cap_def source_def expovariate_def ops_defs Let_def)
next
  case (InitPacket n sv)
  show ?thesis
  proof (cases "system_capacity cfg < 1 + int (length (waiting s))")
    case True
    with InitPacket assms show ?thesis
      by (auto simp: inv_cap_def packet_arrive_def ops_defs Let_def intro: admitted_append)
  next
    case False
    then have "admitted (system_capacity cfg)
        (trace_log s @ [LogArrived n t (Suc (length (waiting s)))]) n t"
      by (auto simp: admitted_def)
    with False InitPacket assms show ?thesis
      by (cases "put_queue s")
         (auto simp: inv_cap_def packet_arrive_def ops_defs Let_def intro: admitted_append)
  qed
next
  case (Request r)
  obtain n a sv where r: "r = (n, a, sv)" by (cases r)
  with Request assms(2,3) have "admitted (system_capacity cfg) (trace_log s) n a"
    by (auto simp: inv_cap_def)
  then have "admitted (system_capacity cfg) (trace_log s @ [LogWaited n t (t - a)]) n (t - (t - a))"
    by (simp add: admitted_append)
  with Request r assms show ?thesis
    by (auto simp: inv_cap_def packet_granted_def ops_defs Let_def intro: admitted_append)
next
  case (ServiceTimeout r)
  obtain n a sv where r: "r = (n, a, sv)" by (cases r)
  with ServiceTimeout assms show ?thesis
    by (auto simp: inv_cap_def packet_depart_def ops_defs Let_def intro: admitted_append)
next
  case Release
  with assms show ?thesis
    by (cases "put_queue s") (auto simp: inv_cap_def ops_defs)
next
  case ProcessEnd
  with assms show ?thesis by (auto simp: inv_cap_def)
next
  case (ProcessFailed e)
  with assms show ?thesis by (auto simp: inv_cap_def)
qed

lemma inv_cap_reachable:
  assumes "trace cfg" and "0 \<le> system_capacity cfg" and "reachable cfg (initial g) s"
  shows "inv_cap (system_capacity cfg) s"
  using assms(3)
proof (induction rule: reachable_invariant)
  case init
  show ?case using assms(2) by (simp add: inv_cap_def initial_def schedule_def)
next
  case (dispatch s t p i ev q)
  then show ?case using inv_cap_dispatch [OF assms(1)] by blast
qed

text \<open>Runs with parameters outside the preconditions.\<close>

lemma zero_mean_raises:
  assumes "1 \<le> n" and "a = 0 \<or> b = 0"
  shows "run_simulation mt a b k n sd tr g = Inl ZeroDivisionError"
proof (cases "a = 0")
  case True
  with assms(1) show ?thesis
    by (simp add: model_defs run.simps)
next
  case False
  with assms have "b = 0" by simp
  with False assms(1) show ?thesis
    by (simp add: model_defs run.simps)
qed

lemma no_customers:
  assumes "n \<le> 0"
  shows "run_simulation mt a b k n sd tr g = Inr (None, 0)"
  using assms by (simp add: model_defs run.simps)

lemma negative_gap_raises:
  assumes "1 \<le> n" and "a < 0" and "b \<noteq> 0" and "0 < mt sd 0"
  shows "run_simulation mt a b k n sd tr g = Inl ValueError"
proof -
  from assms(2,4) have neg: "mt sd 0 * a < 0"
    by (simp add: mult_pos_neg)
  from assms(2) have "a \<noteq> 0" by simp
  with assms(1,3) neg show ?thesis
    by (simp add: model_defs run.simps)
qed

lemma tally_Nil [simp]: "tally P n [] = 0"
  by (simp add: tally_def)

lemma tally_append [simp]: "tally P n (xs @ ys) = tally P n xs + tally P n ys"
  by (simp add: tally_def)

lemma tally_Cons [simp]:
  "tally P n (e # lg) = (if P e \<and> log_name e = n then Suc (tally P n lg) else tally P n lg)"
  by (simp add: tally_def)

lemma names_ok_source:
  assumes "valid mt sd cfg" and "names_ok m s" and "inv_run mt sd cfg s"
    and "queue s = (t, p, e, ev) # q" and "is_source ev"
  shows "names_ok m (dispatch cfg ev (s\<lparr>now := t, queue := q\<rparr>))"
proof -
  from source_effect [OF assms(1,3,4,5)] obtain i where i: "pos (gen s) = 2 * i"
    "dispatch cfg ev (s\<lparr>now := t, queue := q\<rparr>) =
       (if int i < number cfg
        then schedule (SourceTimeout i) NORMAL (gap mt sd cfg i)
               (schedule (InitPacket i (service mt sd cfg i)) URGENT 0
                  (s\<lparr>now := t, queue := q, gen := (gen s)\<lparr>pos := 2 * Suc i\<rparr>\<rparr>))
        else finish (s\<lparr>now := t, queue := q\<rparr>))"
    by blast
  from assms(5) have ev: "packet_of ev = None" "\<not> serving m ev" "\<not> starting m ev"
    by (cases ev; simp)+
  show ?thesis
  proof (cases "int i < number cfg")
    case True
    have "(2 * m < 2 * Suc i) = (m < i \<or> m = i)" "(2 * m < 2 * i) = (m < i)" by auto
    with True i assms(2,4) ev show ?thesis
      by (cases "m = i") (simp_all add: names_ok_def in_flight_def schedule_def)
  next
    case False
    with i assms(2,4) ev show ?thesis
      by (simp add: names_ok_def in_flight_def schedule_def finish_def)
  qed
qed

lemma names_ok_trigger_put: "names_ok m (trigger_put s) = names_ok m s"
  by (cases "put_queue s") (auto simp: names_ok_def in_flight_def trigger_put_def schedule_def)

lemma names_ok_arrive:
  assumes "trace cfg" and "names_ok m s" and "queue s = (t, p, e, InitPacket n sv) # q"
  shows "names_ok m (packet_arrive cfg n sv (s\<lparr>now := t, queue := q\<rparr>))"
proof (cases "system_capacity cfg < 1 + int (length (waiting s))")
  case True
  with assms show ?thesis
    by (auto simp: packet_arrive_def Let_def names_ok_def in_flight_def finish_def schedule_def
        split: if_splits)
next
  case False
  with assms(1) have "packet_arrive cfg n sv (s\<lparr>now := t, queue := q\<rparr>) =
      trigger_put (s\<lparr>now := t, queue := q, waiting := waiting s @ [1],
        trace_log := trace_log s @ [LogArrived n t (Suc (length (waiting s)))],
        put_queue := put_queue s @ [(n, t, sv)]\<rparr>)"
    by (simp add: packet_arrive_def Let_def request_def)
  with assms(2,3) show ?thesis
    by (simp add: names_ok_trigger_put) (auto simp: names_ok_def in_flight_def split: if_splits)
qed

lemma names_ok_granted:
  assumes "valid mt sd cfg" and "names_ok m s" and "inv_run mt sd cfg s"
    and "queue s = (t, p, e, Request (n, a, sv)) # q"
  shows "names_ok m (dispatch cfg (Request (n, a, sv)) (s\<lparr>now := t, queue := q\<rparr>))"
  using granted_effect [OF assms(1,3,4)] assms(2,4)
  by (auto simp: names_ok_def in_flight_def schedule_def split: if_splits)

lemma names_ok_depart:
  assumes "trace cfg" and "names_ok m s" and "inv_server s" and "inv_occ cfg s"
    and "queue s = (t, p, e, ServiceTimeout (n, a, sv)) # q"
  shows "names_ok m (dispatch cfg (ServiceTimeout (n, a, sv)) (s\<lparr>now := t, queue := q\<rparr>))"
  using depart_effect [OF assms(1,3,4,5)] assms(2,5)
  by (auto simp: names_ok_def in_flight_def schedule_def finish_def split: if_splits)

lemma names_ok_dispatch:
  assumes "valid mt sd cfg" and "trace cfg" and "names_ok m s" and "inv_run mt sd cfg s"
    and "inv_server s" and "inv_occ cfg s" and "queue s = (t, p, e, ev) # q"
  shows "names_ok m (dispatch cfg ev (s\<lparr>now := t, queue := q\<rparr>))"
proof (cases ev)
  case InitSource
  then have "is_source ev" by simp
  from names_ok_source [OF assms(1,3,4,7) this] show ?thesis .
next
  case (SourceTimeout j)
  then have "is_source ev" by simp
  from names_ok_source [OF assms(1,3,4,7) this] show ?thesis .
next
  case (InitPacket n sv)
  with names_ok_arrive [OF assms(2,3)] assms(7) show ?thesis by simp
next
  case (Request r)
  obtain n a sv where r: "r = (n, a, sv)" by (cases r)
  with Request names_ok_granted [OF assms(1,3,4)] assms(7) show ?thesis by simp
next
  case (ServiceTimeout r)
  obtain n a sv where r: "r = (n, a, sv)" by (cases r)
  with ServiceTimeout names_ok_depart [OF assms(2,3,5,6)] assms(7) show ?thesis by simp
next
  case Release
  with assms(3,7) have "names_ok m (s\<lparr>now := t, queue := q\<rparr>)"
    by (simp add: names_ok_def in_flight_def)
  with Release show ?thesis by (simp add: names_ok_trigger_put)
next
  case ProcessEnd
  with assms(3,7) show ?thesis
    by (simp add: names_ok_def in_flight_def)
next
  case (ProcessFailed e)
  with assms(3,7) show ?thesis
    by (simp add: names_ok_def in_flight_def)
qed

lemma names_ok_reachable:
  assumes "valid mt sd cfg" and "trace cfg" and "reachable cfg (initial (seed mt sd g)) s"
  shows "names_ok m s"
  using assms(3)
proof (induction rule: reachable_invariant)
  case init
  show ?case
    by (simp add: names_ok_def in_flight_def initial_def schedule_def seed_def)
next
  case (dispatch s t p i ev q)
  then show ?case
    using names_ok_dispatch [OF assms(1,2)] inv_run_reachable [OF assms(1)]
      inv_server_reachable inv_occ_reachable by blast
qed

lemma inv_log_dispatch:
  assumes "inv_log mt sd cfg s" and "inv_run mt sd cfg s" and "queue s = (t, p, e, ev) # q"
  shows "inv_log mt sd cfg (dispatch cfg ev (s\<lparr>now := t, queue := q\<rparr>))"
proof (cases ev)
  case InitSource
  with assms(1) show ?thesis
    by (auto simp: inv_log_def source_def expovariate_def ops_defs Let_def)
next
  case (SourceTimeout j)
  with assms(1) show ?thesis
    by (auto simp: inv_log_def source_def expovariate_def ops_defs Let_def)
next
  case (InitPacket n sv)
  with assms(2,3) have "t = arrival mt sd cfg n"
    by (auto simp: inv_run_def)
  with InitPacket assms(1) show ?thesis
    by (cases "put_queue s") (auto simp: inv_log_def packet_arrive_def ops_defs Let_def)
next
  case (Request r)
  obtain n a sv where r: "r = (n, a, sv)" by (cases r)
  with Request assms(2,3) have "a = arrival mt sd cfg n"
    by (auto simp: inv_run_def)
  with Request r assms(1) show ?thesis
    by (auto simp: inv_log_def packet_granted_def ops_defs Let_def)
next
  case (ServiceTimeout r)
  obtain n a sv where r: "r = (n, a, sv)" by (cases r)
  with ServiceTimeout assms(2,3) have "sv = service mt sd cfg n"
    by (auto simp: inv_run_def)
  with ServiceTimeout r assms(1) show ?thesis
    by (auto simp: inv_log_def packet_depart_def ops_defs Let_def)
next
  case Release
  with assms(1) show ?thesis
    by (cases "put_queue s") (auto simp: inv_log_def ops_defs)
next
  case ProcessEnd
  with assms(1) show ?thesis by (auto simp: inv_log_def)
next
  case (ProcessFailed e)
  with assms(1) show ?thesis by (auto simp: inv_log_def)
qed

lemma inv_log_reachable:
  assumes "valid mt sd cfg" and "reachable cfg (initial (seed mt sd g)) s"
  shows "inv_log mt sd cfg s"
  using assms(2)
proof (induction rule: reachable_invariant)
  case init
  show ?case by (simp add: inv_log_def initial_def schedule_def)
next
  case (dispatch s t p i ev q)
  then show ?case
    using inv_log_dispatch inv_run_reachable [OF assms(1)] by blast
qed

lemma sorted_heappush:
  "sorted_wrt (\<lambda>x y. fst x \<le> fst y) q \<Longrightarrow> sorted_wrt (\<lambda>x y. fst x \<le> fst y) (heappush x q)"
proof (induction q)
  case Nil
  show ?case by simp
next
  case (Cons y ys)
  obtain t1 p1 i1 e1 where x: "x = (t1, p1, i1, e1)" by (cases x)
  obtain t2 p2 i2 e2 where y: "y = (t2, p2, i2, e2)" by (cases y)
  from Cons x y show ?case by fastforce
qed

lemma timely_schedule: "timely s \<Longrightarrow> 0 \<le> d \<Longrightarrow> timely (schedule ev p d s)"
  by (auto simp: timely_def schedule_def sorted_heappush)

lemma timely_finish: "timely s \<Longrightarrow> timely (finish s)"
  by (simp add: finish_def timely_schedule)

lemma timely_fail: "timely s \<Longrightarrow> timely (fail e s)"
  by (simp add: fail_def timely_schedule)

lemma timely_update [simp]:
  "timely (s\<lparr>gen := g\<rparr>) = timely s"
  "timely (s\<lparr>waiting := w\<rparr>) = timely s"
  "timely (s\<lparr>loss := l\<rparr>) = timely s"
  "timely (s\<lparr>wait_times := ws\<rparr>) = timely s"
  "timely (s\<lparr>trace_log := lg\<rparr>) = timely s"
  "timely (s\<lparr>users := us\<rparr>) = timely s"
  "timely (s\<lparr>put_queue := pq\<rparr>) = timely s"
  by (simp_all add: timely_def)

lemma timely_trigger_put: "timely s \<Longrightarrow> timely (trigger_put s)"
  by (cases "put_queue s") (simp_all add: trigger_put_def timely_schedule)

lemma timely_release: "timely s \<Longrightarrow> timely (release r s)"
  by (simp add: release_def timely_schedule)

lemma timely_request: "timely s \<Longrightarrow> timely (request r s)"
  by (simp add: request_def timely_trigger_put)

lemmas timely_intros =
  timely_schedule timely_finish timely_fail timely_trigger_put timely_release timely_request

lemma timely_pop:
  "timely s \<Longrightarrow> queue s = (t, p, e, ev) # q \<Longrightarrow> timely (s\<lparr>now := t, queue := q\<rparr>)"
  by (auto simp: timely_def)

lemma timely_dispatch_any: "timely s \<Longrightarrow> timely (dispatch cfg ev s)"
proof (cases ev)
  case InitSource
  assume "timely s"
  with InitSource show ?thesis
    by (auto simp: source_def expovariate_def Let_def intro!: timely_intros)
next
  case (SourceTimeout j)
  assume "timely s"
  with SourceTimeout show ?thesis
    by (auto simp: source_def expovariate_def Let_def intro!: timely_intros)
next
  case (InitPacket n sv)
  assume "timely s"
  with InitPacket show ?thesis
    by (auto simp: packet_arrive_def Let_def intro!: timely_intros)
next
  case (Request r)
  assume "timely s"
  with Request show ?thesis
    by (cases r) (auto simp: packet_granted_def Let_def intro!: timely_intros)
next
  case (ServiceTimeout r)
  assume "timely s"
  with ServiceTimeout show ?thesis
    by (cases r) (auto simp: packet_depart_def Let_def intro!: timely_intros)
next
  case Release
  assume "timely s"
  with Release show ?thesis by (simp add: timely_trigger_put)
qed simp_all

lemma timely_reachable:
  assumes "reachable cfg (initial g) s"
  shows "timely s"
  using assms
proof (induction rule: reachable_invariant)
  case init
  show ?case by (simp add: timely_def initial_def schedule_def)
next
  case (dispatch s t p i ev q)
  then show ?case by (simp add: timely_dispatch_any timely_pop)
qed

lemma now_trigger_put [simp]: "now (trigger_put s) = now s"
  by (cases "put_queue s") (simp_all add: trigger_put_def schedule_def)

lemma source_count_trigger_put [simp]:
  "count is_source (queue (trigger_put s)) = count is_source (queue s)"
  by (cases "put_queue s") (simp_all add: trigger_put_def schedule_def)

lemma packet_dispatch_clock:
  assumes "\<not> is_source ev"
  shows "now (dispatch cfg ev s) = now s \<and>
         count is_source (queue (dispatch cfg ev s)) = count is_source (queue s)"
proof (cases ev)
  case (InitPacket n sv)
  then show ?thesis
    by (simp add: packet_arrive_def Let_def request_def finish_def schedule_def)
next
  case (Request r)
  then show ?thesis
    by (cases r) (simp add: packet_granted_def Let_def release_def fail_def schedule_def)
next
  case (ServiceTimeout r)
  then show ?thesis
    by (cases r) (simp add: packet_depart_def Let_def release_def fail_def finish_def schedule_def)
qed (use assms in simp_all)

lemma source_done_dispatch:
  assumes "valid mt sd cfg" and "source_done mt sd cfg s" and "inv_run mt sd cfg s"
    and "timely s" and "queue s = (t, p, e, ev) # q"
  shows "source_done mt sd cfg (dispatch cfg ev (s\<lparr>now := t, queue := q\<rparr>))"
proof (cases "is_source ev")
  case True
  from source_effect [OF assms(1,3,5) True] obtain i where i:
    "t = arrival mt sd cfg i" "\<not> int i < number cfg \<longrightarrow> i = nat (number cfg)"
    "dispatch cfg ev (s\<lparr>now := t, queue := q\<rparr>) =
       (if int i < number cfg
        then schedule (SourceTimeout i) NORMAL (gap mt sd cfg i)
               (schedule (InitPacket i (service mt sd cfg i)) URGENT 0
                  (s\<lparr>now := t, queue := q, gen := (gen s)\<lparr>pos := 2 * Suc i\<rparr>\<rparr>))
        else finish (s\<lparr>now := t, queue := q\<rparr>))"
    by blast
  then show ?thesis
    by (cases "int i < number cfg") (simp_all add: source_done_def schedule_def finish_def)
next
  case False
  from assms(4,5) have "now s \<le> t"
    by (simp add: timely_def)
  with False assms(2,5) packet_dispatch_clock [OF False, of cfg "s\<lparr>now := t, queue := q\<rparr>"]
  show ?thesis
    by (auto simp: source_done_def)
qed

lemma source_done_reachable:
  assumes "valid mt sd cfg" and "reachable cfg (initial (seed mt sd g)) s"
  shows "source_done mt sd cfg s"
  using assms(2)
proof (induction rule: reachable_invariant)
  case init
  show ?case by (simp add: source_done_def initial_def schedule_def)
next
  case (dispatch s t p i ev q)
  then show ?case
    using source_done_dispatch [OF assms(1)] inv_run_reachable [OF assms(1)] timely_reachable
    by blast
qed

lemma count_mono: "(\<And>ev. P ev \<Longrightarrow> Q ev) \<Longrightarrow> count P q \<le> count Q q"
  by (induction q) auto

lemma serving_le_in_flight: "count (serving m) (queue s) \<le> in_flight m s"
proof -
  have "count (serving m) (queue s) \<le> count (\<lambda>ev. packet_of ev = Some m) (queue s)"
  proof (rule count_mono)
    fix ev
    assume "serving m ev"
    then show "packet_of ev = Some m" by (cases ev) auto
  qed
  then show ?thesis by (simp add: in_flight_def)
qed

lemma reachable_iterate: "reachable cfg s0 s \<Longrightarrow> reachable cfg s0 (iterate cfg j s)"
proof (induction j arbitrary: s)
  case 0
  then show ?case by simp
next
  case (Suc j)
  show ?case
  proof (cases "queue s = []")
    case True
    with Suc.prems show ?thesis by simp
  next
    case False
    show ?thesis
    proof (cases "step cfg s")
      case (Inl e)
      with False Suc.prems show ?thesis by simp
    next
      case (Inr s')
      with False Suc.prems have "reachable cfg s0 s'"
        by (auto intro: reachable.next_step)
      from Suc.IH [OF this] False Inr show ?thesis by simp
    qed
  qed
qed

lemma granted_now_pop:
  assumes "granted_now s" and "timely s" and "queue s = (t, p, e, ev) # q"
  shows "granted_now (s\<lparr>now := t, queue := q\<rparr>)"
proof -
  {
    fix x
    assume x: "x \<in> set q" "is_request (ev_of x)"
    with assms(1,3) have "fst x = now s" by (auto simp: granted_now_def)
    moreover from assms(2,3) x(1) have "now s \<le> t" "t \<le> fst x"
      by (auto simp: timely_def)
    ultimately have "fst x = t" by simp
  }
  then show ?thesis by (auto simp: granted_now_def)
qed

lemma granted_now_schedule:
  "granted_now s \<Longrightarrow> (is_request ev \<Longrightarrow> d = 0) \<Longrightarrow> granted_now (schedule ev p d s)"
  by (auto simp: granted_now_def schedule_def)

lemma granted_now_finish: "granted_now s \<Longrightarrow> granted_now (finish s)"
  by (simp add: finish_def granted_now_schedule)

lemma granted_now_fail: "granted_now s \<Longrightarrow> granted_now (fail e s)"
  by (simp add: fail_def granted_now_schedule)

lemma granted_now_update [simp]:
  "granted_now (s\<lparr>gen := g\<rparr>) = granted_now s"
  "granted_now (s\<lparr>waiting := w\<rparr>) = granted_now s"
  "granted_now (s\<lparr>loss := l\<rparr>) = granted_now s"
  "granted_now (s\<lparr>wait_times := ws\<rparr>) = granted_now s"
  "granted_now (s\<lparr>trace_log := lg\<rparr>) = granted_now s"
  "granted_now (s\<lparr>users := us\<rparr>) = granted_now s"
  "granted_now (s\<lparr>put_queue := pq\<rparr>) = granted_now s"
  by (simp_all add: granted_now_def)

lemma granted_now_trigger_put: "granted_now s \<Longrightarrow> granted_now (trigger_put s)"
  by (cases "put_queue s") (simp_all add: trigger_put_def granted_now_schedule)

lemma granted_now_release: "granted_now s \<Longrightarrow> granted_now (release r s)"
  by (simp add: release_def granted_now_schedule)

lemma granted_now_request: "granted_now s \<Longrightarrow> granted_now (request r s)"
  by (simp add: request_def granted_now_trigger_put)

lemmas granted_now_intros =
  granted_now_schedule granted_now_finish granted_now_fail granted_now_trigger_put
  granted_now_release granted_now_request

lemma granted_now_dispatch_any: "granted_now s \<Longrightarrow> granted_now (dispatch cfg ev s)"
proof (cases ev)
  case InitSource
  assume "granted_now s"
  with InitSource show ?thesis
    by (auto simp: source_def expovariate_def Let_def intro!: granted_now_intros)
next
  case (SourceTimeout j)
  assume "granted_now s"
  with SourceTimeout show ?thesis
    by (auto simp: source_def expovariate_def Let_def intro!: granted_now_intros)
next
  case (InitPacket n sv)
  assume "granted_now s"
  with InitPacket show ?thesis
    by (auto simp: packet_arrive_def Let_def intro!: granted_now_intros)
next
  case (Request r)
  assume "granted_now s"
  with Request show ?thesis
    by (cases r) (auto simp: packet_granted_def Let_def intro!: granted_now_intros)
next
  case (ServiceTimeout r)
  assume "granted_now s"
  with ServiceTimeout show ?thesis
    by (cases r) (auto simp: packet_depart_def Let_def intro!: granted_now_intros)
next
  case Release
  assume "granted_now s"
  with Release show ?thesis by (simp add: granted_now_trigger_put)
qed simp_all

lemma granted_now_reachable:
  assumes "reachable cfg (initial g) s"
  shows "granted_now s"
  using assms
proof (induction rule: reachable_invariant)
  case init
  show ?case by (simp add: granted_now_def initial_def schedule_def)
next
  case (dispatch s t p i ev q)
  then show ?case
    using granted_now_dispatch_any granted_now_pop timely_reachable by blast
qed

text \<open>The step that resumes a customer whose request of the server was granted.\<close>

lemma grant_step:
  assumes "valid mt sd cfg" and "reachable cfg (initial (seed mt sd g)) s"
    and "queue s = (t, p, e, Request (m, t0, sv)) # q"
  shows "t0 = arrival mt sd cfg m \<and> t = now s \<and>
     step cfg s =
       Inr (s\<lparr>now := t,
              queue := heappush (t + sv, NORMAL, eid s, ServiceTimeout (m, t0, sv)) q,
              eid := Suc (eid s),
              wait_times := wait_times s @ [t - t0],
              trace_log := trace_log s @ [LogWaited m t (t - t0)]\<rparr>)"
proof -
  have inv: "inv_run mt sd cfg s"
    by (rule inv_run_reachable [OF assms(1,2)])
  with assms(3) have "t0 = arrival mt sd cfg m"
    by (auto simp: inv_run_def)
  moreover from granted_now_reachable [OF assms(2)] assms(3) have "t = now s"
    by (auto simp: granted_now_def)
  moreover from granted_effect [OF assms(1) inv assms(3)] assms(3)
  have "step cfg s =
       Inr (s\<lparr>now := t,
              queue := heappush (t + sv, NORMAL, eid s, ServiceTimeout (m, t0, sv)) q,
              eid := Suc (eid s),
              wait_times := wait_times s @ [t - t0],
              trace_log := trace_log s @ [LogWaited m t (t - t0)]\<rparr>)"
    by (simp add: step_Cons schedule_def)
  ultimately show ?thesis by simp
qed

section \<open>Claims\<close>

text \<open>
  C1. The claim: the admission check and the loss record are performed for every arriving
  customer whatever the trace flag, so that \<open>run_simulation\<close> returns the same pair with
  the flag on and off. The code puts the whole admission check, the request of the
  server and the departure under \<open>if trace:\<close>, although the docstring of \<open>packet\<close>
  says that it requests a server, is served and leaves. With one customer and capacity 0
  the customer is dropped under \<open>trace=True\<close> (loss count 1) and is neither dropped nor
  served under \<open>trace=False\<close> (loss count 0).
\<close>

theorem C1_trace_changes_result:
  "run_simulation (script [1, 1]) 1 1 0 1 1234 True \<lparr>stream = (\<lambda>n. 0), pos = 0\<rparr> = Inr (None, 1)
   \<and> run_simulation (script [1, 1]) 1 1 0 1 1234 False \<lparr>stream = (\<lambda>n. 0), pos = 0\<rparr> = Inr (None, 0)"
  by (simp add: model_defs run.simps)

text \<open>
  C3. Determinism: the result of \<open>run_simulation\<close> is a function of its parameters and
  the seed alone. The generator of the random module is reseeded by every call, so the
  state \<open>g1\<close> or \<open>g2\<close> that earlier calls left in it has no effect on the result.
\<close>

theorem C3_reseeded_deterministic:
  "run_simulation mt mean_ia mean_srv capacity num_packets random_seed tr g1 =
   run_simulation mt mean_ia mean_srv capacity num_packets random_seed tr g2"
proof -
  have "seed mt random_seed g1 = seed mt random_seed g2"
    by (simp add: seed_def)
  then show ?thesis
    by (simp add: run_simulation_def)
qed

text \<open>
  C4. Conservation: a run with valid parameters (positive means, no negative sample, a
  count of at least 0; the trace flag at its default \<open>True\<close>) completes, and the loss
  count that \<open>run_simulation\<close> returns plus the number of customers that were served
  and left (the log lines of line 55 of the source) is the number of customers. Every
  entry of \<open>loss\<close> has its line "left" in the log, and every customer \<open>m\<close> below the
  count ends in exactly one of the two states: the log has either one line "left" or one
  line "served and left" for it, and no line of either kind for any other name.
\<close>

theorem C4_conservation:
  assumes "0 < a" and "0 < b" and "\<forall>n. 0 \<le> mt sd n" and "0 \<le> n"
  shows "\<exists>s. run \<lparr>mean_ia_time = a, mean_srv_time = b, system_capacity = k, number = n,
                   trace = True\<rparr> (initial (seed mt sd g)) = Inr s \<and>
              run_simulation mt a b k n sd True g = Inr (mean (wait_times s), length (loss s)) \<and>
              int (length (loss s) + departed s) = n \<and>
              length (loss s) = length (filter is_left (trace_log s)) \<and>
              (\<forall>m. tally is_left m (trace_log s) + tally is_served m (trace_log s)
                     = (if int m < n then 1 else 0))"
proof -
  let ?cfg = "\<lparr>mean_ia_time = a, mean_srv_time = b, system_capacity = k, number = n, trace = True\<rparr>"
  from assms have v: "valid mt sd ?cfg" by (simp add: valid_def)
  from final_state [OF v, of g] obtain s where s: "run ?cfg (initial (seed mt sd g)) = Inr s"
    "reachable ?cfg (initial (seed mt sd g)) s" "queue s = []" "users s = []" "put_queue s = []"
    "pos (gen s) = 2 * nat n"
    by auto
  have "inv_count s"
    using inv_count_reachable [OF v _ s(2)] by simp
  then have c: "pos (gen s) = 2 * (count is_init_packet (queue s) + length (waiting s)
      + length (loss s) + departed s)" "length (waiting s) = length (put_queue s) + length (users s)"
    "length (loss s) = length (filter is_left (trace_log s))"
    by (simp_all add: inv_count_def departed_def)
  with s(3-6) have total: "length (loss s) + departed s = nat n"
    by simp
  have each: "\<forall>m. tally is_left m (trace_log s) + tally is_served m (trace_log s)
                     = (if int m < n then 1 else 0)"
  proof
    fix m
    have "names_ok m s"
      using names_ok_reachable [OF v _ s(2)] by simp
    moreover have "(2 * m < 2 * nat n) = (int m < n)" by auto
    ultimately show "tally is_left m (trace_log s) + tally is_served m (trace_log s)
                     = (if int m < n then 1 else 0)"
      using s(3,5,6) by (simp add: names_ok_def in_flight_def)
  qed
  from total assms(4) s(1) c(3) each show ?thesis
    by (intro exI [of _ s]) (simp add: run_simulation_eq statistics_def)
qed

theorem C4_conservation_witness:
  "\<exists>s. run \<lparr>mean_ia_time = 1, mean_srv_time = 1, system_capacity = 1, number = 2,
                   trace = True\<rparr> (initial (seed (script [1, 3, 1, 1]) 1234 \<lparr>stream = (\<lambda>n. 0), pos = 0\<rparr>)) = Inr s \<and>
       run_simulation (script [1, 3, 1, 1]) 1 1 1 2 1234 True \<lparr>stream = (\<lambda>n. 0), pos = 0\<rparr>
         = Inr (mean (wait_times s), length (loss s)) \<and>
       int (length (loss s) + departed s) = 2 \<and>
       length (loss s) = length (filter is_left (trace_log s)) \<and>
       tally is_left 0 (trace_log s) + tally is_served 0 (trace_log s) = 1 \<and>
       tally is_left 1 (trace_log s) + tally is_served 1 (trace_log s) = 1 \<and>
       tally is_left 2 (trace_log s) + tally is_served 2 (trace_log s) = 0"
proof -
  have h: "\<forall>n. 0 \<le> script [1, 3, 1, 1] 1234 n"
    by (rule script_nonneg) simp
  from C4_conservation [of 1 1 "script [1, 3, 1, 1]" 1234 2 1 "\<lparr>stream = (\<lambda>n. 0), pos = 0\<rparr>", OF _ _ h]
  obtain s where s:
    "run \<lparr>mean_ia_time = 1, mean_srv_time = 1, system_capacity = 1, number = 2,
                   trace = True\<rparr> (initial (seed (script [1, 3, 1, 1]) 1234 \<lparr>stream = (\<lambda>n. 0), pos = 0\<rparr>)) = Inr s"
    "run_simulation (script [1, 3, 1, 1]) 1 1 1 2 1234 True \<lparr>stream = (\<lambda>n. 0), pos = 0\<rparr>
         = Inr (mean (wait_times s), length (loss s))"
    "int (length (loss s) + departed s) = 2"
    "length (loss s) = length (filter is_left (trace_log s))"
    "\<forall>m. tally is_left m (trace_log s) + tally is_served m (trace_log s)
          = (if int m < 2 then 1 else 0)"
    by auto
  from s(5) have "tally is_left 0 (trace_log s) + tally is_served 0 (trace_log s) = 1"
    and "tally is_left 1 (trace_log s) + tally is_served 1 (trace_log s) = 1"
    and "tally is_left 2 (trace_log s) + tally is_served 2 (trace_log s) = 0"
    by simp_all
  with s(1-4) show ?thesis by blast
qed

text \<open>
  C2. With a system capacity of 0 and at least one customer, every arrival is dropped: a
  run with positive means (and the trace flag at its default \<open>True\<close>) returns a loss
  count equal to the number of customers and a mean waiting time that is NaN (\<open>None\<close>),
  no waiting time having been recorded.
\<close>

theorem C2_capacity_zero_drops_all:
  assumes "0 < a" and "0 < b" and "\<forall>i. 0 \<le> mt sd i" and "1 \<le> n"
  shows "run_simulation mt a b 0 n sd True g = Inr (None, nat n) \<and> int (nat n) = n"
  using capacity_nonpositive [where mt = mt and sd = sd and k = 0 and n = n and g = g, OF assms(1-3)] assms(4)
  by simp

theorem C2_capacity_zero_witness:
  "run_simulation (script [1, 3, 1, 1]) 1 1 0 2 1234 True \<lparr>stream = (\<lambda>n. 0), pos = 0\<rparr>
     = Inr (None, nat 2) \<and> int (nat 2) = (2::int)"
proof -
  have h: "\<forall>n. 0 \<le> script [1, 3, 1, 1] 1234 n"
    by (rule script_nonneg) simp
  show ?thesis
    using C2_capacity_zero_drops_all [of 1 1 "script [1, 3, 1, 1]" 1234 2
        "\<lparr>stream = (\<lambda>n. 0), pos = 0\<rparr>", OF _ _ h]
    by simp
qed

text \<open>
  C10. With the trace flag off, no customer is dropped or served: a run with positive
  means returns a loss count of 0 and a NaN mean waiting time for every capacity and
  every number of customers. Each customer has only appended to \<open>waiting\<close>: the list
  ends with one entry per customer, and no line of the admission check was reached (the
  log is empty).
\<close>

theorem C10_no_trace_no_admission:
  assumes "0 < a" and "0 < b" and "\<forall>i. 0 \<le> mt sd i"
  shows "\<exists>s. run \<lparr>mean_ia_time = a, mean_srv_time = b, system_capacity = k, number = n,
                   trace = False\<rparr> (initial (seed mt sd g)) = Inr s \<and>
              run_simulation mt a b k n sd False g = Inr (None, 0) \<and>
              length (waiting s) = nat n \<and> loss s = [] \<and> wait_times s = [] \<and>
              trace_log s = []"
proof -
  let ?cfg = "\<lparr>mean_ia_time = a, mean_srv_time = b, system_capacity = k, number = n, trace = False\<rparr>"
  have v: "valid mt sd ?cfg" using assms by (rule valid_config)
  from final_state [OF v, of g] obtain s where s: "run ?cfg (initial (seed mt sd g)) = Inr s"
    "reachable ?cfg (initial (seed mt sd g)) s" "queue s = []" "pos (gen s) = 2 * nat n"
    by auto
  have "inv_notrace s"
    using inv_notrace_reachable [OF v _ s(2)] by simp
  then have i: "wait_times s = []" "loss s = []" "trace_log s = []"
    "pos (gen s) = 2 * (count is_init_packet (queue s) + length (waiting s))"
    by (simp_all add: inv_notrace_def)
  with s(3,4) have "length (waiting s) = nat n" by simp
  with s(1) i show ?thesis
    by (simp add: run_simulation_eq statistics_def mean_def)
qed

theorem C10_no_trace_witness:
  "\<exists>s. run \<lparr>mean_ia_time = 1, mean_srv_time = 1, system_capacity = 1, number = 2,
                   trace = False\<rparr> (initial (seed (script [1, 3, 1, 1]) 1234 \<lparr>stream = (\<lambda>n. 0), pos = 0\<rparr>)) = Inr s \<and>
       run_simulation (script [1, 3, 1, 1]) 1 1 1 2 1234 False \<lparr>stream = (\<lambda>n. 0), pos = 0\<rparr>
         = Inr (None, 0) \<and>
       length (waiting s) = nat 2 \<and> loss s = [] \<and> wait_times s = [] \<and> trace_log s = []"
proof -
  have h: "\<forall>n. 0 \<le> script [1, 3, 1, 1] 1234 n"
    by (rule script_nonneg) simp
  show ?thesis
    using C10_no_trace_no_admission [of 1 1 "script [1, 3, 1, 1]" 1234 1 2
        "\<lparr>stream = (\<lambda>n. 0), pos = 0\<rparr>", OF _ _ h]
    by simp
qed

text \<open>
  C5. The claim: with the other parameters and the seed fixed, a larger capacity never
  gives a larger loss count. The service time of a customer is drawn when the customer is
  generated, also for customers that are dropped, so admitting one more customer with a
  long service time can block later ones. With interarrival gaps 1, 10, 2, 2, 2 and
  service times 10, 100, 1, 1, 1, capacity 1 loses one customer and capacity 2 loses two.
\<close>

theorem C5_not_monotone:
  "run_simulation (script [1, 10, 10, 100, 2, 1, 2, 1, 2, 1]) 1 1 1 5 1234 True
       \<lparr>stream = (\<lambda>n. 0), pos = 0\<rparr> = Inr (Some 0, 1)
   \<and> run_simulation (script [1, 10, 10, 100, 2, 1, 2, 1, 2, 1]) 1 1 2 5 1234 True
       \<lparr>stream = (\<lambda>n. 0), pos = 0\<rparr> = Inr (Some 36, 2)"
  by (simp add: model_defs run.simps)

text \<open>
  C5, as amended: for capacities \<open>k1 \<le> k2\<close>, the loss count with \<open>k2\<close> is at most the
  loss count with \<open>k1\<close> when \<open>k1\<close> is at most 0 (every customer is dropped) or \<open>k2\<close> is
  at least the number of customers (no customer is dropped).
\<close>

theorem C5_monotone_at_the_ends:
  assumes "0 < a" and "0 < b" and "\<forall>i. 0 \<le> mt sd i" and "k1 \<le> k2"
    and "k1 \<le> 0 \<or> n \<le> k2"
  shows "\<exists>m1 l1 m2 l2.
           run_simulation mt a b k1 n sd True g = Inr (m1, l1) \<and>
           run_simulation mt a b k2 n sd True g = Inr (m2, l2) \<and> l2 \<le> l1"
proof -
  from loss_bound [where mt = mt and sd = sd and k = k1 and n = n and g = g, OF assms(1-3)] obtain m1 l1
    where r1: "run_simulation mt a b k1 n sd True g = Inr (m1, l1)" by blast
  from loss_bound [where mt = mt and sd = sd and k = k2 and n = n and g = g, OF assms(1-3)] obtain m2 l2
    where r2: "run_simulation mt a b k2 n sd True g = Inr (m2, l2)" "l2 \<le> nat n" by blast
  from assms(5) have "l2 \<le> l1"
  proof
    assume "k1 \<le> 0"
    from capacity_nonpositive [where mt = mt and sd = sd and n = n and g = g, OF assms(1-3) this] r1 have "l1 = nat n" by simp
    with r2(2) show ?thesis by simp
  next
    assume "n \<le> k2"
    from capacity_large [where mt = mt and sd = sd and g = g, OF assms(1-3) this] r2(1) have "l2 = 0" by auto
    then show ?thesis by simp
  qed
  with r1 r2(1) show ?thesis by blast
qed

theorem C5_monotone_witness:
  "\<exists>m1 l1 m2 l2.
     run_simulation (script [1, 3, 1, 1]) 1 1 0 2 1234 True \<lparr>stream = (\<lambda>n. 0), pos = 0\<rparr> = Inr (m1, l1) \<and>
     run_simulation (script [1, 3, 1, 1]) 1 1 1 2 1234 True \<lparr>stream = (\<lambda>n. 0), pos = 0\<rparr> = Inr (m2, l2) \<and>
     l2 \<le> l1"
proof -
  have h: "\<forall>n. 0 \<le> script [1, 3, 1, 1] 1234 n"
    by (rule script_nonneg) simp
  show ?thesis
    using C5_monotone_at_the_ends [of 1 1 "script [1, 3, 1, 1]" 1234 0 1 2
        "\<lparr>stream = (\<lambda>n. 0), pos = 0\<rparr>", OF _ _ h]
    by simp
qed

text \<open>
  C6. Occupancy: with a capacity \<open>k\<close> of at least 0 (and the trace flag at its default),
  in every state of a run between two events the occupancy counter \<open>waiting\<close> holds at
  most \<open>k\<close> entries; every occupancy that a line of the log shows, inside an event, is
  at most \<open>k + 1\<close>; an arrival line that shows more than \<open>k\<close> is followed, in the same
  event, by the line of this customer leaving with one less; and every customer that waits
  for the server, holds it, or has waited, has an arrival line that shows at most \<open>k\<close>.
\<close>

theorem C6_occupancy_bound:
  assumes "0 \<le> k"
    and "reachable \<lparr>mean_ia_time = a, mean_srv_time = b, system_capacity = k, number = n,
           trace = True\<rparr> (initial g) s"
  shows "int (length (waiting s)) \<le> k \<and>
     (\<forall>e \<in> set (trace_log s). \<forall>occ. log_occupancy e = Some occ \<longrightarrow> int occ \<le> k + 1) \<and>
     (\<forall>m t occ. LogArrived m t occ \<in> set (trace_log s) \<and> k < int occ \<longrightarrow>
        LogLeft m t (occ - 1) \<in> set (trace_log s)) \<and>
     (\<forall>r \<in> set (put_queue s). admitted k (trace_log s) (fst r) (fst (snd r))) \<and>
     (\<forall>x \<in> set (queue s). \<forall>r. request_of (ev_of x) = Some r \<longrightarrow>
        admitted k (trace_log s) (fst r) (fst (snd r))) \<and>
     (\<forall>m t w. LogWaited m t w \<in> set (trace_log s) \<longrightarrow> admitted k (trace_log s) m (t - w))"
proof -
  let ?cfg = "\<lparr>mean_ia_time = a, mean_srv_time = b, system_capacity = k, number = n, trace = True\<rparr>"
  have "inv_cap (system_capacity ?cfg) s"
    by (rule inv_cap_reachable [OF _ _ assms(2)]) (simp_all add: assms(1))
  then show ?thesis
    by (simp add: inv_cap_def)
qed

theorem C6_occupancy_witness:
  "reachable \<lparr>mean_ia_time = 1, mean_srv_time = 1, system_capacity = 1, number = 2, trace = True\<rparr>
     (initial \<lparr>stream = script [1, 3, 1, 1] 1234, pos = 0\<rparr>)
     \<lparr>now = 3, queue = [], eid = 11, users = [], put_queue = [], wait_times = [0],
      waiting = [], loss = [1], gen = \<lparr>stream = script [1, 3, 1, 1] 1234, pos = 4\<rparr>,
      trace_log = [LogArrived 0 0 1, LogWaited 0 0 0, LogArrived 1 1 2, LogLeft 1 1 1,
                   LogServed 0 3 3 0]\<rparr>
   \<and> LogLeft 1 1 (2 - 1) \<in> set [LogArrived 0 0 1, LogWaited 0 0 0, LogArrived 1 1 2, LogLeft 1 1 1,
                   LogServed 0 3 3 0]
   \<and> admitted 1 [LogArrived 0 0 1, LogWaited 0 0 0, LogArrived 1 1 2, LogLeft 1 1 1,
                   LogServed 0 3 3 0] 0 (0 - 0)"
proof -
  let ?cfg = "\<lparr>mean_ia_time = 1, mean_srv_time = 1, system_capacity = 1, number = 2, trace = True\<rparr>"
  let ?init = "initial \<lparr>stream = script [1, 3, 1, 1] 1234, pos = 0\<rparr>"
  let ?final = "\<lparr>now = 3, queue = [], eid = 11, users = [], put_queue = [], wait_times = [0],
      waiting = [], loss = [1], gen = \<lparr>stream = script [1, 3, 1, 1] 1234, pos = 4\<rparr>,
      trace_log = [LogArrived 0 0 1, LogWaited 0 0 0, LogArrived 1 1 2, LogLeft 1 1 1,
                   LogServed 0 3 3 0]\<rparr>"
  have "run ?cfg ?init = Inr ?final"
    by (simp add: model_defs run.simps)
  from run_reachable [OF this reachable.start] have r: "reachable ?cfg ?init ?final"
    by simp
  have "(0::int) \<le> 1" by simp
  from C6_occupancy_bound [OF this r] r show ?thesis
    by simp
qed

text \<open>
  C9. The claim: a mean time that is not positive, a negative capacity or a negative
  count is refused with an error before any event is scheduled. The code validates
  nothing: with a negative capacity the run completes and returns statistics.
\<close>

theorem C9_negative_capacity_accepted:
  "run_simulation (script [1, 1]) 1 1 (- 1) 1 1234 True \<lparr>stream = (\<lambda>n. 0), pos = 0\<rparr>
     = Inr (None, 1)"
  by (simp add: model_defs run.simps)

text \<open>
  C9, as amended: \<open>run_simulation\<close> checks no parameter. With at least one customer, a
  mean time of 0 raises \<open>ZeroDivisionError\<close> and a negative mean interarrival time (with
  a positive first sample) raises \<open>ValueError\<close>, both out of \<open>env.run()\<close>, so that no
  statistics are returned. A count of at most 0 generates no customer and returns NaN and
  a loss count of 0, whatever the other parameters. A negative capacity with positive
  means (and the trace flag on) drops every customer.
\<close>

theorem C9_no_validation:
  "(1 \<le> n \<and> (a = 0 \<or> b = 0) \<longrightarrow>
      run_simulation mt a b k n sd tr g = Inl ZeroDivisionError) \<and>
   (1 \<le> n \<and> a < 0 \<and> b \<noteq> 0 \<and> 0 < mt sd 0 \<longrightarrow>
      run_simulation mt a b k n sd tr g = Inl ValueError) \<and>
   (n \<le> 0 \<longrightarrow> run_simulation mt a b k n sd tr g = Inr (None, 0)) \<and>
   (0 < a \<and> 0 < b \<and> (\<forall>i. 0 \<le> mt sd i) \<and> k < 0 \<longrightarrow>
      run_simulation mt a b k n sd True g = Inr (None, nat n))"
proof (intro conjI impI)
  assume "1 \<le> n \<and> (a = 0 \<or> b = 0)"
  then show "run_simulation mt a b k n sd tr g = Inl ZeroDivisionError"
    by (simp add: zero_mean_raises)
next
  assume "1 \<le> n \<and> a < 0 \<and> b \<noteq> 0 \<and> 0 < mt sd 0"
  then show "run_simulation mt a b k n sd tr g = Inl ValueError"
    by (simp add: negative_gap_raises)
next
  assume "n \<le> 0"
  then show "run_simulation mt a b k n sd tr g = Inr (None, 0)"
    by (rule no_customers)
next
  assume h: "0 < a \<and> 0 < b \<and> (\<forall>i. 0 \<le> mt sd i) \<and> k < 0"
  then have "k \<le> 0" by simp
  with h show "run_simulation mt a b k n sd True g = Inr (None, nat n)"
    using capacity_nonpositive [where mt = mt and sd = sd and a = a and b = b and k = k]
    by blast
qed

theorem C9_no_validation_witness:
  "run_simulation (script [1, 1]) 0 1 1 1 1234 True \<lparr>stream = (\<lambda>n. 0), pos = 0\<rparr>
     = Inl ZeroDivisionError \<and>
   run_simulation (script [1, 1]) (- 1) 1 1 1 1234 True \<lparr>stream = (\<lambda>n. 0), pos = 0\<rparr>
     = Inl ValueError \<and>
   run_simulation (script [1, 1]) 1 1 1 (- 1) 1234 True \<lparr>stream = (\<lambda>n. 0), pos = 0\<rparr>
     = Inr (None, 0) \<and>
   run_simulation (script [1, 1]) 1 1 (- 2) 3 1234 True \<lparr>stream = (\<lambda>n. 0), pos = 0\<rparr>
     = Inr (None, nat 3)"
proof -
  have h: "\<forall>n. 0 \<le> script [1, 1] 1234 n"
    by (rule script_nonneg) simp
  have p: "0 < script [1, 1] 1234 0"
    by (simp add: script_def)
  show ?thesis
    using C9_no_validation [of 1 0 1 "script [1, 1]" 1 1234 True "\<lparr>stream = (\<lambda>n. 0), pos = 0\<rparr>"]
      C9_no_validation [of 1 "- 1" 1 "script [1, 1]" 1 1234 True "\<lparr>stream = (\<lambda>n. 0), pos = 0\<rparr>"]
      C9_no_validation [of "- 1" 1 1 "script [1, 1]" 1 1234 True "\<lparr>stream = (\<lambda>n. 0), pos = 0\<rparr>"]
      C9_no_validation [of 3 1 1 "script [1, 1]" "- 2" 1234 True "\<lparr>stream = (\<lambda>n. 0), pos = 0\<rparr>"]
      h p
    by simp
qed

text \<open>
  C7. Wait times: in a run with valid parameters (capacity at least 0, trace at its
  default) the list \<open>wait_times\<close> is, at every moment, the list of the waits that the
  log shows; the wait of a customer is the time of the grant minus the time of its
  arrival line, which shows an occupancy within the capacity; the wait of a customer is
  recorded exactly when its service timeout is in the heap or its service is over; a
  customer has at most one of the lines "left" and "waited", and a customer that was
  dropped holds no request and no event. When the run ends, every customer has exactly
  one of the two: it was dropped, or one wait was recorded for it.

  The last part is the step of the grant itself. The request event of customer \<open>m\<close> is
  in the heap at the time \<open>t\<close> at which the server was granted, which is the clock
  \<open>now\<close> of every state that holds the event, and it carries the arrival time \<open>t0\<close> of
  \<open>m\<close>, the sum of the gaps before \<open>m\<close>. The step that pops it leaves the clock at
  \<open>t\<close>, appends \<open>t - t0\<close> to \<open>wait_times\<close> and schedules the service timeout at
  \<open>t + sv\<close>; it changes nothing else but the log and the event counter.
\<close>

theorem C7_wait_recorded_once:
  assumes "0 < a" and "0 < b" and "\<forall>i. 0 \<le> mt sd i" and "0 \<le> k"
    and "cfg = \<lparr>mean_ia_time = a, mean_srv_time = b, system_capacity = k, number = n, trace = True\<rparr>"
  shows "(\<exists>s. run cfg (initial (seed mt sd g)) = Inr s \<and>
            (\<forall>m. int m < n \<longrightarrow>
               tally is_left m (trace_log s) + tally is_waited m (trace_log s) = 1)) \<and>
         (\<forall>s. reachable cfg (initial (seed mt sd g)) s \<longrightarrow>
            wait_times s = waits (trace_log s) \<and>
            (\<forall>m t w. LogWaited m t w \<in> set (trace_log s) \<longrightarrow>
               (\<exists>t0 occ. LogArrived m t0 occ \<in> set (trace_log s) \<and> int occ \<le> k \<and> w = t - t0)) \<and>
            (\<forall>m. tally is_waited m (trace_log s)
                    = count (serving m) (queue s) + tally is_served m (trace_log s) \<and>
                  tally is_left m (trace_log s) + tally is_waited m (trace_log s) \<le> 1 \<and>
                  (0 < tally is_left m (trace_log s) \<longrightarrow> in_flight m s = 0))) \<and>
         (\<forall>s t p e m t0 sv q.
            reachable cfg (initial (seed mt sd g)) s \<and>
            queue s = (t, p, e, Request (m, t0, sv)) # q \<longrightarrow>
            t0 = arrival mt sd cfg m \<and> t = now s \<and>
            step cfg s =
              Inr (s\<lparr>now := t,
                     queue := heappush (t + sv, NORMAL, eid s, ServiceTimeout (m, t0, sv)) q,
                     eid := Suc (eid s),
                     wait_times := wait_times s @ [t - t0],
                     trace_log := trace_log s @ [LogWaited m t (t - t0)]\<rparr>))"
proof (intro conjI allI impI)
  from assms have v: "valid mt sd cfg" and tr: "trace cfg" and n: "number cfg = n"
    and k: "system_capacity cfg = k"
    by (simp_all add: valid_def)
  {
    from final_state [OF v, of g] obtain s where s: "run cfg (initial (seed mt sd g)) = Inr s"
      "reachable cfg (initial (seed mt sd g)) s" "queue s = []" "put_queue s = []"
      "pos (gen s) = 2 * nat n"
      using n by auto
    have "\<forall>m. int m < n \<longrightarrow> tally is_left m (trace_log s) + tally is_waited m (trace_log s) = 1"
    proof (intro allI impI)
      fix m
      assume "int m < n"
      then have "2 * m < 2 * nat n" by auto
      with names_ok_reachable [OF v tr s(2), of m] s(3,4,5)
      show "tally is_left m (trace_log s) + tally is_waited m (trace_log s) = 1"
        by (simp add: names_ok_def in_flight_def)
    qed
    with s(1) show "\<exists>s. run cfg (initial (seed mt sd g)) = Inr s \<and>
            (\<forall>m. int m < n \<longrightarrow>
               tally is_left m (trace_log s) + tally is_waited m (trace_log s) = 1)"
      by blast
  }
  {
    fix s t p e m t0 sv q
    assume "reachable cfg (initial (seed mt sd g)) s \<and> queue s = (t, p, e, Request (m, t0, sv)) # q"
    then have g: "t0 = arrival mt sd cfg m \<and> t = now s \<and>
       step cfg s =
         Inr (s\<lparr>now := t,
                queue := heappush (t + sv, NORMAL, eid s, ServiceTimeout (m, t0, sv)) q,
                eid := Suc (eid s),
                wait_times := wait_times s @ [t - t0],
                trace_log := trace_log s @ [LogWaited m t (t - t0)]\<rparr>)"
      using grant_step [OF v] by blast
    from g show "t0 = arrival mt sd cfg m" by simp
    from g show "t = now s" by simp
    from g show "step cfg s =
         Inr (s\<lparr>now := t,
                queue := heappush (t + sv, NORMAL, eid s, ServiceTimeout (m, t0, sv)) q,
                eid := Suc (eid s),
                wait_times := wait_times s @ [t - t0],
                trace_log := trace_log s @ [LogWaited m t (t - t0)]\<rparr>)" by simp
  }
  fix s
  assume r: "reachable cfg (initial (seed mt sd g)) s"
  from inv_count_reachable [OF v tr r] show "wait_times s = waits (trace_log s)"
    by (simp add: inv_count_def)
  have cap: "inv_cap k s"
    using inv_cap_reachable [OF tr _ r] assms(4) k by simp
  {
    fix m t w
    assume "LogWaited m t w \<in> set (trace_log s)"
    with cap have "admitted k (trace_log s) m (t - w)"
      by (simp add: inv_cap_def)
    then obtain occ where "LogArrived m (t - w) occ \<in> set (trace_log s)" "int occ \<le> k"
      by (auto simp: admitted_def)
    moreover have "w = t - (t - w)" by simp
    ultimately show "\<exists>t0 occ. LogArrived m t0 occ \<in> set (trace_log s) \<and> int occ \<le> k \<and> w = t - t0"
      by blast
  }
  fix m
  have ok: "names_ok m s"
    by (rule names_ok_reachable [OF v tr r])
  then show w: "tally is_waited m (trace_log s)
      = count (serving m) (queue s) + tally is_served m (trace_log s)"
    by (simp add: names_ok_def)
  from ok have le: "in_flight m s + tally is_left m (trace_log s) + tally is_served m (trace_log s) \<le> 1"
    by (simp add: names_ok_def)
  with w serving_le_in_flight [of m s]
  show "tally is_left m (trace_log s) + tally is_waited m (trace_log s) \<le> 1"
    by simp
  assume "0 < tally is_left m (trace_log s)"
  with le show "in_flight m s = 0" by simp
qed

theorem C7_wait_recorded_witness:
  "(\<exists>s. run \<lparr>mean_ia_time = 1, mean_srv_time = 1, system_capacity = 2, number = 2, trace = True\<rparr>
          (initial (seed (script [1, 3, 1, 1]) 1234 \<lparr>stream = (\<lambda>n. 0), pos = 0\<rparr>)) = Inr s \<and>
       tally is_left 0 (trace_log s) + tally is_waited 0 (trace_log s) = 1 \<and>
       tally is_left 1 (trace_log s) + tally is_waited 1 (trace_log s) = 1) \<and>
   reachable \<lparr>mean_ia_time = 1, mean_srv_time = 1, system_capacity = 2, number = 2, trace = True\<rparr>
     (initial (seed (script [1, 3, 1, 1]) 1234 \<lparr>stream = (\<lambda>n. 0), pos = 0\<rparr>))
     \<lparr>now = 3, queue = [(3, 1, 10, Request (1, 1, 1))], eid = 11, users = [(1, 1, 1)],
      put_queue = [], wait_times = [0], waiting = [1], loss = [],
      gen = \<lparr>stream = script [1, 3, 1, 1] 1234, pos = 4\<rparr>,
      trace_log = [LogArrived 0 0 1, LogWaited 0 0 0, LogArrived 1 1 2, LogServed 0 3 3 1]\<rparr> \<and>
   step \<lparr>mean_ia_time = 1, mean_srv_time = 1, system_capacity = 2, number = 2, trace = True\<rparr>
     \<lparr>now = 3, queue = [(3, 1, 10, Request (1, 1, 1))], eid = 11, users = [(1, 1, 1)],
      put_queue = [], wait_times = [0], waiting = [1], loss = [],
      gen = \<lparr>stream = script [1, 3, 1, 1] 1234, pos = 4\<rparr>,
      trace_log = [LogArrived 0 0 1, LogWaited 0 0 0, LogArrived 1 1 2, LogServed 0 3 3 1]\<rparr>
   = Inr \<lparr>now = 3, queue = [(4, 1, 11, ServiceTimeout (1, 1, 1))], eid = 12,
      users = [(1, 1, 1)], put_queue = [], wait_times = [0, 2], waiting = [1], loss = [],
      gen = \<lparr>stream = script [1, 3, 1, 1] 1234, pos = 4\<rparr>,
      trace_log = [LogArrived 0 0 1, LogWaited 0 0 0, LogArrived 1 1 2, LogServed 0 3 3 1,
                   LogWaited 1 3 2]\<rparr>"
proof -
  let ?cfg = "\<lparr>mean_ia_time = 1, mean_srv_time = 1, system_capacity = 2, number = 2, trace = True\<rparr>"
  let ?init = "initial (seed (script [1, 3, 1, 1]) 1234 \<lparr>stream = (\<lambda>n. 0), pos = 0\<rparr>)"
  let ?before = "\<lparr>now = 3, queue = [(3, 1, 10, Request (1, 1, 1))], eid = 11, users = [(1, 1, 1)],
      put_queue = [], wait_times = [0], waiting = [1], loss = [],
      gen = \<lparr>stream = script [1, 3, 1, 1] 1234, pos = 4\<rparr>,
      trace_log = [LogArrived 0 0 1, LogWaited 0 0 0, LogArrived 1 1 2, LogServed 0 3 3 1]\<rparr>"
  have h: "\<forall>n. 0 \<le> script [1, 3, 1, 1] 1234 n"
    by (rule script_nonneg) simp
  have "(0::real) < 1" "(0::int) \<le> 2" by simp_all
  note inst = C7_wait_recorded_once [where mt = "script [1, 3, 1, 1]" and sd = 1234 and a = 1
      and b = 1 and k = 2 and n = 2 and g = "\<lparr>stream = (\<lambda>n. 0), pos = 0\<rparr>",
      OF this(1) this(1) h this(2) refl]
  from inst obtain s where s: "run ?cfg ?init = Inr s"
    "\<forall>m. int m < 2 \<longrightarrow> tally is_left m (trace_log s) + tally is_waited m (trace_log s) = 1"
    by blast
  from s(2) have "tally is_left 0 (trace_log s) + tally is_waited 0 (trace_log s) = 1"
    and "tally is_left 1 (trace_log s) + tally is_waited 1 (trace_log s) = 1"
    by simp_all
  with s(1) have first: "\<exists>s. run ?cfg ?init = Inr s \<and>
       tally is_left 0 (trace_log s) + tally is_waited 0 (trace_log s) = 1 \<and>
       tally is_left 1 (trace_log s) + tally is_waited 1 (trace_log s) = 1"
    by blast
  have "iterate ?cfg 10 ?init = ?before"
    by (simp add: eval_nat_numeral model_defs)
  with reachable_iterate [OF reachable.start, of ?cfg ?init 10]
  have r: "reachable ?cfg ?init ?before" by simp
  from inst have "\<forall>s t p e m t0 sv q.
            reachable ?cfg ?init s \<and> queue s = (t, p, e, Request (m, t0, sv)) # q \<longrightarrow>
            step ?cfg s =
              Inr (s\<lparr>now := t,
                     queue := heappush (t + sv, NORMAL, eid s, ServiceTimeout (m, t0, sv)) q,
                     eid := Suc (eid s),
                     wait_times := wait_times s @ [t - t0],
                     trace_log := trace_log s @ [LogWaited m t (t - t0)]\<rparr>)"
    by blast
  from this [rule_format, of ?before 3 1 10 1 1 1 "[]"] r
  have "step ?cfg ?before =
     Inr (?before\<lparr>now := 3,
            queue := heappush (3 + 1, NORMAL, eid ?before, ServiceTimeout (1, 1, 1)) [],
            eid := Suc (eid ?before),
            wait_times := wait_times ?before @ [3 - 1],
            trace_log := trace_log ?before @ [LogWaited 1 3 (3 - 1)]\<rparr>)"
    by simp
  then have "step ?cfg ?before = Inr \<lparr>now = 3, queue = [(4, 1, 11, ServiceTimeout (1, 1, 1))], eid = 12,
      users = [(1, 1, 1)], put_queue = [], wait_times = [0, 2], waiting = [1], loss = [],
      gen = \<lparr>stream = script [1, 3, 1, 1] 1234, pos = 4\<rparr>,
      trace_log = [LogArrived 0 0 1, LogWaited 0 0 0, LogArrived 1 1 2, LogServed 0 3 3 1,
                   LogWaited 1 3 2]\<rparr>"
    by (simp add: NORMAL_def)
  with first r show ?thesis by blast
qed

text \<open>
  C8. The claim: the source spawns exactly N customers, drawing for each first the gap
  and then the service time, suspends for the gap before the next spawn, and ends after
  the N-th spawn with no trailing wait. The loop of \<open>source\<close> yields its timeout after
  every spawn, the last included: with one customer and a first gap of 3, the first step
  leaves the timeout of the source in the heap at time 3, and the run ends at time 3
  although the only customer arrived and was dropped at time 0.
\<close>

theorem C8_trailing_wait:
  "step \<lparr>mean_ia_time = 1, mean_srv_time = 1, system_capacity = 0, number = 1, trace = True\<rparr>
     (initial \<lparr>stream = script [3, 1] 1234, pos = 0\<rparr>)
   = Inr \<lparr>now = 0, queue = [(0, 0, 1, InitPacket 0 1), (3, 1, 2, SourceTimeout 0)], eid = 3,
          users = [], put_queue = [], wait_times = [], waiting = [], loss = [],
          gen = \<lparr>stream = script [3, 1] 1234, pos = 2\<rparr>, trace_log = []\<rparr>
   \<and> run \<lparr>mean_ia_time = 1, mean_srv_time = 1, system_capacity = 0, number = 1, trace = True\<rparr>
     (initial \<lparr>stream = script [3, 1] 1234, pos = 0\<rparr>)
   = Inr \<lparr>now = 3, queue = [], eid = 5, users = [], put_queue = [], wait_times = [],
          waiting = [], loss = [1], gen = \<lparr>stream = script [3, 1] 1234, pos = 2\<rparr>,
          trace_log = [LogArrived 0 0 1, LogLeft 0 0 0]\<rparr>"
  by (simp add: model_defs run.simps)

text \<open>
  C8, as amended: the source draws two samples per customer, \<open>2 * N\<close> in all, the first
  of each pair for the gap and the second for the service time; every customer
  \<open>m < N\<close>, and no other, arrives once, at the sum of the first \<open>m\<close> gaps; and after
  the N-th spawn the source waits for the N-th gap as well, so that the run does not end
  before the sum of all N gaps.
\<close>

theorem C8_source_with_trailing_wait:
  assumes "0 < a" and "0 < b" and "\<forall>i. 0 \<le> mt sd i"
    and "cfg = \<lparr>mean_ia_time = a, mean_srv_time = b, system_capacity = k, number = n, trace = True\<rparr>"
  shows "\<exists>s. run cfg (initial (seed mt sd g)) = Inr s \<and>
     pos (gen s) = 2 * nat n \<and>
     (\<forall>m. tally is_arrived m (trace_log s) = (if int m < n then 1 else 0)) \<and>
     (\<forall>m t occ. LogArrived m t occ \<in> set (trace_log s) \<longrightarrow> t = arrival mt sd cfg m) \<and>
     (\<forall>m t sv occ. LogServed m t sv occ \<in> set (trace_log s) \<longrightarrow> sv = service mt sd cfg m) \<and>
     arrival mt sd cfg (nat n) \<le> now s"
proof -
  from assms have v: "valid mt sd cfg" and tr: "trace cfg" and n: "number cfg = n"
    by (simp_all add: valid_def)
  from final_state [OF v, of g] obtain s where s: "run cfg (initial (seed mt sd g)) = Inr s"
    "reachable cfg (initial (seed mt sd g)) s" "queue s = []" "pos (gen s) = 2 * nat n"
    using n by auto
  have names: "\<And>m. names_ok m s"
    by (rule names_ok_reachable [OF v tr s(2)])
  have "\<And>m. tally is_arrived m (trace_log s) = (if int m < n then 1 else 0)"
  proof -
    fix m
    have "(2 * m < 2 * nat n) = (int m < n)" by auto
    with names [of m] s(3,4) show "tally is_arrived m (trace_log s) = (if int m < n then 1 else 0)"
      by (simp add: names_ok_def)
  qed
  moreover have "inv_log mt sd cfg s"
    by (rule inv_log_reachable [OF v s(2)])
  then have "\<forall>m t occ. LogArrived m t occ \<in> set (trace_log s) \<longrightarrow> t = arrival mt sd cfg m"
    and "\<forall>m t sv occ. LogServed m t sv occ \<in> set (trace_log s) \<longrightarrow> sv = service mt sd cfg m"
    by (auto simp: inv_log_def)
  moreover have "source_done mt sd cfg s"
    by (rule source_done_reachable [OF v s(2)])
  with s(3) n have "arrival mt sd cfg (nat n) \<le> now s"
    by (simp add: source_done_def)
  ultimately show ?thesis
    using s(1,4) by blast
qed

theorem C8_source_witness:
  "\<exists>s. run \<lparr>mean_ia_time = 1, mean_srv_time = 1, system_capacity = 1, number = 2, trace = True\<rparr>
          (initial (seed (script [1, 3, 1, 1]) 1234 \<lparr>stream = (\<lambda>n. 0), pos = 0\<rparr>)) = Inr s \<and>
     pos (gen s) = 2 * nat 2 \<and>
     (\<forall>m. tally is_arrived m (trace_log s) = (if int m < 2 then 1 else 0)) \<and>
     arrival (script [1, 3, 1, 1]) 1234
       \<lparr>mean_ia_time = 1, mean_srv_time = 1, system_capacity = 1, number = 2, trace = True\<rparr> (nat 2)
       \<le> now s"
proof -
  have h: "\<forall>n. 0 \<le> script [1, 3, 1, 1] 1234 n"
    by (rule script_nonneg) simp
  have "(0::real) < 1" by simp
  from C8_source_with_trailing_wait [where mt = "script [1, 3, 1, 1]" and sd = 1234 and a = 1
      and b = 1 and k = 1 and n = 2 and g = "\<lparr>stream = (\<lambda>n. 0), pos = 0\<rparr>",
      OF this this h refl]
  show ?thesis by blast
qed

end
